theory Spec2Isabelle
  imports Complex_Main
begin

section \<open>Data model of \<^verbatim>\<open>src/game/solver.ts\<close>\<close>

text \<open>
  A position is the pair \<open>(r, c)\<close> of the source's \<^verbatim>\<open>{ r, c }\<close>; both are integers, since the
  solvers form \<^verbatim>\<open>cur.r + d.r\<close> before they test the bounds. Equality of positions is
  equality of both components, which is how the source compares them.
\<close>

type_synonym Pos = "int \<times> int"

record Walls =
  top_wall :: bool
  right_wall :: bool
  bottom_wall :: bool
  left_wall :: bool

record MazeCell =
  walls :: Walls
  visited :: bool

text \<open>\<^verbatim>\<open>cells\<close> is optional in the source; \<open>None\<close> is the degraded binary mode.\<close>

record Level =
  grid :: "int list list"
  start :: Pos
  cells :: "MazeCell list list option"

text \<open>A JavaScript number that is an integer or \<^verbatim>\<open>Infinity\<close> (the initial score).\<close>

datatype number = Fin int | Infinity

fun number_less :: "number \<Rightarrow> number \<Rightarrow> bool" where
  "number_less (Fin a) (Fin b) = (a < b)"
| "number_less (Fin a) Infinity = True"
| "number_less Infinity b = False"

fun number_plus :: "number \<Rightarrow> int \<Rightarrow> number" where
  "number_plus (Fin a) k = Fin (a + k)"
| "number_plus Infinity k = Infinity"

datatype AlgorithmData =
    BfsData (queueSize: nat) (currentLevel: nat) (neighborsAdded: nat)
  | DfsData (stackDepth: nat) (isBacktracking: bool) (deadEnd: bool)
  | AStarData (gScore: number) (hScore: int) (fScore: number) (openSetSize: nat)
  | DijkstraData (currentDistance: number) (relaxationCount: nat) (priorityQueueSize: nat)

record DetailedStep =
  position :: Pos
  stepNumber :: nat
  algorithmData :: AlgorithmData

record AStarScores =
  gScores :: "number list list"
  hScores :: "int list list"
  fScores :: "number list list"

record Solution =
  distance :: int
  path :: "Pos list"
  visitedCells :: "Pos list"
  algorithm :: string
  detailedSteps :: "DetailedStep list"
  aStarScores :: "AStarScores option"

datatype Algorithm = BFS | DFS | AStar | Dijkstra

text \<open>
  A run of a solver has one of four outcomes: it does not return (\<open>None\<close>), it reads an
  array outside its range (\<open>Some (Inl IndexOutOfRange)\<close>; JavaScript reads \<^verbatim>\<open>undefined\<close>
  there and the dereference that follows throws), it returns \<^verbatim>\<open>null\<close>
  (\<open>Some (Inr None)\<close>), or it returns a solution (\<open>Some (Inr (Some sol))\<close>).
\<close>

datatype error = IndexOutOfRange

type_synonym 'a run = "(error + 'a) option"

subsection \<open>Two-dimensional arrays\<close>

definition in_range :: "'a list list \<Rightarrow> Pos \<Rightarrow> bool" where
  "in_range m p \<longleftrightarrow>
     0 \<le> fst p \<and> fst p < int (length m) \<and> 0 \<le> snd p \<and> snd p < int (length (m ! nat (fst p)))"

text \<open>\<^verbatim>\<open>m[r][c]\<close>\<close>

definition cell_at :: "'a list list \<Rightarrow> Pos \<Rightarrow> error + 'a" where
  "cell_at m p = (if in_range m p then Inr (m ! nat (fst p) ! nat (snd p)) else Inl IndexOutOfRange)"

text \<open>\<^verbatim>\<open>m[r][c] = v\<close>\<close>

definition set_cell :: "'a list list \<Rightarrow> Pos \<Rightarrow> 'a \<Rightarrow> error + 'a list list" where
  "set_cell m p v =
     (if in_range m p then Inr (m[nat (fst p) := (m ! nat (fst p))[nat (snd p) := v]])
      else Inl IndexOutOfRange)"

text \<open>\<^verbatim>\<open>Array.from({ length: rows }, () => Array(cols).fill(v))\<close>\<close>

definition filled :: "int \<Rightarrow> int \<Rightarrow> 'a \<Rightarrow> 'a list list" where
  "filled rows cols v = replicate (nat rows) (replicate (nat cols) v)"

subsection \<open>Directions, heuristic, adjacency oracle and exit test\<close>

definition DIRS :: "Pos list" where
  "DIRS = [(-1, 0), (1, 0), (0, -1), (0, 1)]"

definition heuristic :: "Pos \<Rightarrow> int \<Rightarrow> int \<Rightarrow> int" where
  "heuristic pos rows cols = min (min (fst pos) (snd pos)) (min (rows - 1 - fst pos) (cols - 1 - snd pos))"

definition wall_clear :: "MazeCell list list \<Rightarrow> Pos \<Rightarrow> (Walls \<Rightarrow> bool) \<Rightarrow> error + bool" where
  "wall_clear cs p side = (case cell_at cs p of Inl e \<Rightarrow> Inl e | Inr cell \<Rightarrow> Inr (\<not> side (walls cell)))"

text \<open>
  Each solver declares the same closure \<^verbatim>\<open>canMoveBetween\<close>; the four copies differ in
  layout only, so the model has one.
\<close>

definition canMoveBetween :: "Level \<Rightarrow> Pos \<Rightarrow> Pos \<Rightarrow> error + bool" where
  "canMoveBetween level from to =
     (case cells level of
        Some cs \<Rightarrow>
          (let dr = fst to - fst from; dc = snd to - snd from in
           if dr = -1 \<and> dc = 0 then wall_clear cs from top_wall
           else if dr = 1 \<and> dc = 0 then wall_clear cs from bottom_wall
           else if dr = 0 \<and> dc = -1 then wall_clear cs from left_wall
           else if dr = 0 \<and> dc = 1 then wall_clear cs from right_wall
           else Inr False)
      | None \<Rightarrow> (case cell_at (grid level) to of Inl e \<Rightarrow> Inl e | Inr v \<Rightarrow> Inr (v = 0)))"

text \<open>
  The exit test is written inline in each solver, the same text four times: in wall mode
  an \<^verbatim>\<open>if / else if\<close> chain over the four borders, in binary mode the border test alone.
\<close>

definition canExit :: "Level \<Rightarrow> int \<Rightarrow> int \<Rightarrow> Pos \<Rightarrow> error + bool" where
  "canExit level rows cols pos =
     (case cells level of
        Some cs \<Rightarrow>
          (case (if fst pos = 0 then wall_clear cs pos top_wall else Inr False) of
             Inl e \<Rightarrow> Inl e
           | Inr True \<Rightarrow> Inr True
           | Inr False \<Rightarrow>
          (case (if fst pos = rows - 1 then wall_clear cs pos bottom_wall else Inr False) of
             Inl e \<Rightarrow> Inl e
           | Inr True \<Rightarrow> Inr True
           | Inr False \<Rightarrow>
          (case (if snd pos = 0 then wall_clear cs pos left_wall else Inr False) of
             Inl e \<Rightarrow> Inl e
           | Inr True \<Rightarrow> Inr True
           | Inr False \<Rightarrow>
          (if snd pos = cols - 1 then wall_clear cs pos right_wall else Inr False))))
      | None \<Rightarrow> Inr (fst pos = 0 \<or> snd pos = 0 \<or> fst pos = rows - 1 \<or> snd pos = cols - 1))"

text \<open>\<^verbatim>\<open>nxt.r < 0 || nxt.r >= rows || nxt.c < 0 || nxt.c >= cols\<close>\<close>

definition outside :: "int \<Rightarrow> int \<Rightarrow> Pos \<Rightarrow> bool" where
  "outside rows cols p \<longleftrightarrow> fst p < 0 \<or> fst p \<ge> rows \<or> snd p < 0 \<or> snd p \<ge> cols"

definition step_to :: "Pos \<Rightarrow> Pos \<Rightarrow> Pos" where
  "step_to p d = (fst p + fst d, snd p + snd d)"

section \<open>Breadth-first search (\<^verbatim>\<open>solveBFS\<close>)\<close>

text \<open>
  \<^verbatim>\<open>visited\<close> holds \<^verbatim>\<open>null\<close> (\<open>None\<close>), the sentinel \<^verbatim>\<open>-1\<close> for the start, or the linear
  index \<^verbatim>\<open>r * cols + c\<close> of the predecessor. Decoding uses \<^verbatim>\<open>Math.floor(i / cols)\<close> and
  \<^verbatim>\<open>i % cols\<close>; JavaScript's remainder takes the sign of the dividend, and \<^verbatim>\<open>null\<close>
  counts as 0 in arithmetic.
\<close>

definition js_rem :: "int \<Rightarrow> int \<Rightarrow> int" where
  "js_rem a b = sgn a * (\<bar>a\<bar> mod \<bar>b\<bar>)"

definition decode :: "int \<Rightarrow> int option \<Rightarrow> Pos" where
  "decode cols v = (let prevIdx = (case v of None \<Rightarrow> 0 | Some i \<Rightarrow> i) in (prevIdx div cols, js_rem prevIdx cols))"

text \<open>The inner \<^verbatim>\<open>while (visited[temp.r][temp.c] !== -1)\<close> that counts the level.\<close>

partial_function (option) bfs_level :: "int option list list \<Rightarrow> int \<Rightarrow> Pos \<Rightarrow> nat \<Rightarrow> nat run" where
  "bfs_level vis cols temp lvl =
     (case cell_at vis temp of
        Inl e \<Rightarrow> Some (Inl e)
      | Inr v \<Rightarrow> if v = Some (-1) then Some (Inr lvl) else bfs_level vis cols (decode cols v) (lvl + 1))"

text \<open>The \<^verbatim>\<open>while (true)\<close> of the path reconstruction, before \<^verbatim>\<open>path.reverse()\<close>.\<close>

partial_function (option) bfs_path :: "int option list list \<Rightarrow> int \<Rightarrow> Pos \<Rightarrow> Pos list \<Rightarrow> Pos list run" where
  "bfs_path vis cols p acc =
     (case cell_at vis p of
        Inl e \<Rightarrow> Some (Inl e)
      | Inr v \<Rightarrow> if v = Some (-1) then Some (Inr (acc @ [p])) else bfs_path vis cols (decode cols v) (acc @ [p]))"

declare bfs_level.simps [code]
declare bfs_path.simps [code]

text \<open>The \<^verbatim>\<open>for (const d of DIRS)\<close> of one expansion; it updates \<^verbatim>\<open>visited\<close>, \<^verbatim>\<open>queue\<close>
  and \<^verbatim>\<open>neighborsAdded\<close>.\<close>

fun bfs_neighbors ::
  "Level \<Rightarrow> int \<Rightarrow> int \<Rightarrow> Pos \<Rightarrow> Pos list \<Rightarrow> int option list list \<Rightarrow> Pos list \<Rightarrow> nat
     \<Rightarrow> error + (int option list list \<times> Pos list \<times> nat)" where
  "bfs_neighbors level rows cols cur [] vis queue added = Inr (vis, queue, added)"
| "bfs_neighbors level rows cols cur (d # ds) vis queue added =
     (let nxt = step_to cur d in
      if outside rows cols nxt then bfs_neighbors level rows cols cur ds vis queue added
      else case canMoveBetween level cur nxt of
        Inl e \<Rightarrow> Inl e
      | Inr False \<Rightarrow> bfs_neighbors level rows cols cur ds vis queue added
      | Inr True \<Rightarrow>
          (case cell_at vis nxt of
             Inl e \<Rightarrow> Inl e
           | Inr (Some i) \<Rightarrow> bfs_neighbors level rows cols cur ds vis queue added
           | Inr None \<Rightarrow>
               (case set_cell vis nxt (Some (fst cur * cols + snd cur)) of
                  Inl e \<Rightarrow> Inl e
                | Inr vis' \<Rightarrow> bfs_neighbors level rows cols cur ds vis' (queue @ [nxt]) (added + 1))))"


text \<open>How many cells of an array satisfy a test; the loops' termination measures count
  the cells not yet marked.\<close>

definition count_cells :: "('a \<Rightarrow> bool) \<Rightarrow> 'a list list \<Rightarrow> nat" where
  "count_cells P m = sum_list (map (\<lambda>row. length (filter P row)) m)"

lemma filter_update_drop:
  assumes "i < length xs" "P (xs ! i)" "\<not> P v"
  shows "Suc (length (filter P (xs[i := v]))) = length (filter P xs)"
  using assms
proof (induction xs arbitrary: i)
  case Nil
  then show ?case by simp
next
  case (Cons x xs)
  then show ?case by (cases i) auto
qed

lemma sum_list_update_drop:
  assumes "i < length xs" "Suc (f y) = f (xs ! i)"
  shows "Suc (sum_list (map f (xs[i := y]))) = sum_list (map f xs)"
  using assms
proof (induction xs arbitrary: i)
  case Nil
  then show ?case by simp
next
  case (Cons x xs)
  then show ?case by (cases i) auto
qed

lemma count_cells_set_cell:
  assumes "set_cell m p v = Inr m'" "cell_at m p = Inr old" "P old" "\<not> P v"
  shows "Suc (count_cells P m') = count_cells P m"
proof -
  from assms(1) have rng: "in_range m p"
    and m': "m' = m[nat (fst p) := (m ! nat (fst p))[nat (snd p) := v]]"
    by (auto simp: set_cell_def split: if_splits)
  from assms(2) rng have old: "old = m ! nat (fst p) ! nat (snd p)"
    by (simp add: cell_at_def)
  from rng have i: "nat (fst p) < length m" and j: "nat (snd p) < length (m ! nat (fst p))"
    by (auto simp: in_range_def)
  have "Suc (length (filter P ((m ! nat (fst p))[nat (snd p) := v]))) = length (filter P (m ! nat (fst p)))"
    using filter_update_drop [OF j] assms(3,4) old by simp
  then show ?thesis
    unfolding count_cells_def m' by (intro sum_list_update_drop [OF i])
qed

lemma bfs_neighbors_measure:
  "bfs_neighbors level rows cols cur ds vis queue added = Inr (vis', queue', added') \<Longrightarrow>
   2 * count_cells (\<lambda>x. x = None) vis' + length queue' \<le> 2 * count_cells (\<lambda>x. x = None) vis + length queue"
proof (induction ds arbitrary: vis queue added)
  case Nil
  then show ?case by simp
next
  case (Cons d ds)
  show ?case
  proof (cases "outside rows cols (step_to cur d)")
    case True
    with Cons show ?thesis by simp
  next
    case out: False
    show ?thesis
    proof (cases "canMoveBetween level cur (step_to cur d)")
      case (Inl e)
      with Cons.prems out show ?thesis by simp
    next
      case (Inr b)
      show ?thesis
      proof (cases b)
        case False
        with Cons Inr out show ?thesis by simp
      next
        case True
        show ?thesis
        proof (cases "cell_at vis (step_to cur d)")
          case (Inl e)
          with Cons.prems out Inr True show ?thesis by simp
        next
          case cell: (Inr v)
          show ?thesis
          proof (cases v)
            case (Some i)
            with Cons out Inr True cell show ?thesis by simp
          next
            case None
            show ?thesis
            proof (cases "set_cell vis (step_to cur d) (Some (fst cur * cols + snd cur))")
              case (Inl e)
              with Cons.prems out Inr True cell None show ?thesis by simp
            next
              case upd: (Inr vis2)
              have dec: "Suc (count_cells (\<lambda>x. x = None) vis2) = count_cells (\<lambda>x. x = None) vis"
                using count_cells_set_cell [OF upd, of None "\<lambda>x. x = None"] cell None by simp
              have "bfs_neighbors level rows cols cur ds vis2 (queue @ [step_to cur d]) (added + 1)
                      = Inr (vis', queue', added')"
                using Cons.prems out Inr True cell None upd by simp
              from Cons.IH [OF this] dec show ?thesis by simp
            qed
          qed
        qed
      qed
    qed
  qed
qed

text \<open>The main \<^verbatim>\<open>while (queue.length)\<close>. Its arguments are the locals of \<^verbatim>\<open>solveBFS\<close>
  that the loop changes.\<close>

function bfs_loop ::
  "Level \<Rightarrow> int \<Rightarrow> int \<Rightarrow> Pos list \<Rightarrow> int option list list \<Rightarrow> Pos list \<Rightarrow> DetailedStep list \<Rightarrow> nat
     \<Rightarrow> Solution option run" where
  "bfs_loop level rows cols queue vis seen steps stepNo =
     (case queue of
        [] \<Rightarrow> Some (Inr None)
      | cur # rest \<Rightarrow>
          (case bfs_level vis cols cur 0 of
             None \<Rightarrow> None
           | Some (Inl e) \<Rightarrow> Some (Inl e)
           | Some (Inr lvl) \<Rightarrow>
               (case canExit level rows cols cur of
                  Inl e \<Rightarrow> Some (Inl e)
                | Inr True \<Rightarrow>
                    (case bfs_path vis cols cur [] of
                       None \<Rightarrow> None
                     | Some (Inl e) \<Rightarrow> Some (Inl e)
                     | Some (Inr p) \<Rightarrow>
                         Some (Inr (Some \<lparr>distance = int (length p) - 1, path = rev p,
                           visitedCells = seen @ [cur], algorithm = ''BFS'',
                           detailedSteps = steps, aStarScores = None\<rparr>)))
                | Inr False \<Rightarrow>
                    (case bfs_neighbors level rows cols cur DIRS vis rest 0 of
                       Inl e \<Rightarrow> Some (Inl e)
                     | Inr (vis', queue', added) \<Rightarrow>
                         bfs_loop level rows cols queue' vis' (seen @ [cur])
                           (steps @ [\<lparr>position = cur, stepNumber = stepNo,
                              algorithmData = BfsData (length queue') lvl added\<rparr>])
                           (stepNo + 1)))))"
  by pat_completeness auto

termination bfs_loop
proof (relation "measure (\<lambda>(level, rows, cols, queue, vis, seen, steps, stepNo).
          2 * count_cells (\<lambda>x. x = None) vis + length queue)", goal_cases)
  case 1
  show ?case by simp
next
  case (2 level rows cols queue vis seen steps stepNo cur rest lvl b x2 nb vis' qa queue' added)
  from bfs_neighbors_measure [of level rows cols cur DIRS vis rest 0 vis' queue' added] 2
  show ?case by simp
qed

declare bfs_loop.simps [simp del]

text \<open>\<^verbatim>\<open>solveBFS\<close>: \<^verbatim>\<open>level.grid[0].length\<close> needs a first row.\<close>

definition solveBFS :: "Level \<Rightarrow> Solution option run" where
  "solveBFS level =
     (case grid level of
        [] \<Rightarrow> Some (Inl IndexOutOfRange)
      | row0 # _ \<Rightarrow>
          (let rows = int (length (grid level)); cols = int (length row0) in
           case set_cell (filled rows cols None) (start level) (Some (-1)) of
             Inl e \<Rightarrow> Some (Inl e)
           | Inr vis \<Rightarrow> bfs_loop level rows cols [start level] vis [] [] 0))"


section \<open>Depth-first search (\<^verbatim>\<open>solveDFS\<close>)\<close>

text \<open>
  The walk up the \<^verbatim>\<open>parent\<close> links that counts \<^verbatim>\<open>stackDepth\<close>, and the walk that
  collects the path (\<^verbatim>\<open>while (current) { path.push(current); current = parent[...] }\<close>);
  \<^verbatim>\<open>solveAStar\<close> and \<^verbatim>\<open>solveDijkstra\<close> reconstruct their paths with the same loop.
\<close>

partial_function (option) parent_depth :: "Pos option list list \<Rightarrow> Pos \<Rightarrow> nat \<Rightarrow> nat run" where
  "parent_depth parent current depth =
     (case cell_at parent current of
        Inl e \<Rightarrow> Some (Inl e)
      | Inr None \<Rightarrow> Some (Inr depth)
      | Inr (Some p) \<Rightarrow> parent_depth parent p (depth + 1))"

partial_function (option) parent_path :: "Pos option list list \<Rightarrow> Pos \<Rightarrow> Pos list \<Rightarrow> Pos list run" where
  "parent_path parent current acc =
     (case cell_at parent current of
        Inl e \<Rightarrow> Some (Inl e)
      | Inr None \<Rightarrow> Some (Inr (acc @ [current]))
      | Inr (Some p) \<Rightarrow> parent_path parent p (acc @ [current]))"

declare parent_depth.simps [code]
declare parent_path.simps [code]

record DfsState =
  dfs_visited :: "bool list list"
  dfs_parent :: "Pos option list list"
  dfs_seen :: "Pos list"
  dfs_steps :: "DetailedStep list"
  dfs_stepNumber :: nat

function dfs :: "Level \<Rightarrow> int \<Rightarrow> int \<Rightarrow> Pos \<Rightarrow> DfsState \<Rightarrow> (Pos option \<times> DfsState) run"
  and dfs_dirs :: "Level \<Rightarrow> int \<Rightarrow> int \<Rightarrow> Pos \<Rightarrow> nat \<Rightarrow> Pos list \<Rightarrow> nat \<Rightarrow> DfsState \<Rightarrow> (Pos option \<times> DfsState) run"
where
  "dfs level rows cols pos s =
     (case set_cell (dfs_visited s) pos True of
        Inl e \<Rightarrow> Some (Inl e)
      | Inr vis \<Rightarrow>
          (case parent_depth (dfs_parent s) pos 0 of
             None \<Rightarrow> None
           | Some (Inl e) \<Rightarrow> Some (Inl e)
           | Some (Inr depth) \<Rightarrow>
               (case canExit level rows cols pos of
                  Inl e \<Rightarrow> Some (Inl e)
                | Inr True \<Rightarrow> Some (Inr (Some pos, s\<lparr>dfs_visited := vis, dfs_seen := dfs_seen s @ [pos]\<rparr>))
                | Inr False \<Rightarrow>
                    dfs_dirs level rows cols pos depth DIRS 0
                      (s\<lparr>dfs_visited := vis, dfs_seen := dfs_seen s @ [pos]\<rparr>))))"
| "dfs_dirs level rows cols pos depth [] valid s =
     Some (Inr (None, s\<lparr>dfs_steps := dfs_steps s @
        [\<lparr>position = pos, stepNumber = dfs_stepNumber s,
          algorithmData = DfsData depth False (valid = 0)\<rparr>],
        dfs_stepNumber := dfs_stepNumber s + 1\<rparr>))"
| "dfs_dirs level rows cols pos depth (d # ds) valid s =
     (if outside rows cols (step_to pos d) then dfs_dirs level rows cols pos depth ds valid s
      else case canMoveBetween level pos (step_to pos d) of
        Inl e \<Rightarrow> Some (Inl e)
      | Inr False \<Rightarrow> dfs_dirs level rows cols pos depth ds valid s
      | Inr True \<Rightarrow>
          (case cell_at (dfs_visited s) (step_to pos d) of
             Inl e \<Rightarrow> Some (Inl e)
           | Inr True \<Rightarrow> dfs_dirs level rows cols pos depth ds valid s
           | Inr False \<Rightarrow>
               (case set_cell (dfs_parent s) (step_to pos d) (Some pos) of
                  Inl e \<Rightarrow> Some (Inl e)
                | Inr par \<Rightarrow>
                    (case dfs level rows cols (step_to pos d) (s\<lparr>dfs_parent := par\<rparr>) of
                       None \<Rightarrow> None
                     | Some (Inl e) \<Rightarrow> Some (Inl e)
                     | Some (Inr (Some found, s')) \<Rightarrow> Some (Inr (Some found, s'))
                     | Some (Inr (None, s')) \<Rightarrow>
                         dfs_dirs level rows cols pos depth ds (valid + 1) s'))))"
  by pat_completeness auto


lemma filter_update_le:
  "\<not> P v \<Longrightarrow> length (filter P (xs[i := v])) \<le> length (filter P xs)"
proof (induction xs arbitrary: i)
  case Nil
  then show ?case by simp
next
  case (Cons x xs)
  then show ?case by (cases i) (auto simp: le_SucI)
qed

lemma sum_list_update_le:
  "i < length xs \<Longrightarrow> f y \<le> (f (xs ! i) :: nat) \<Longrightarrow> sum_list (map f (xs[i := y])) \<le> sum_list (map f xs)"
proof (induction xs arbitrary: i)
  case Nil
  then show ?case by simp
next
  case (Cons x xs)
  then show ?case by (cases i) auto
qed

lemma count_cells_set_cell_le:
  assumes "set_cell m p v = Inr m'" "\<not> P v"
  shows "count_cells P m' \<le> count_cells P m"
proof -
  from assms(1) have rng: "in_range m p"
    and m': "m' = m[nat (fst p) := (m ! nat (fst p))[nat (snd p) := v]]"
    by (auto simp: set_cell_def split: if_splits)
  from rng have i: "nat (fst p) < length m"
    by (auto simp: in_range_def)
  show ?thesis
    unfolding count_cells_def m'
    by (intro sum_list_update_le [OF i] filter_update_le assms(2))
qed

lemma dfs_count_le:
  "dfs_dfs_dirs_dom (Inl (level, rows, cols, pos, s)) \<Longrightarrow>
     dfs level rows cols pos s = Some (Inr (res, s')) \<Longrightarrow>
     count_cells (\<lambda>b. \<not> b) (dfs_visited s') \<le> count_cells (\<lambda>b. \<not> b) (dfs_visited s)"
  "dfs_dfs_dirs_dom (Inr (level, rows, cols, pos, depth, ds, valid, s)) \<Longrightarrow>
     dfs_dirs level rows cols pos depth ds valid s = Some (Inr (res, s')) \<Longrightarrow>
     count_cells (\<lambda>b. \<not> b) (dfs_visited s') \<le> count_cells (\<lambda>b. \<not> b) (dfs_visited s)"
proof (induction arbitrary: res s' and res s' rule: dfs_dfs_dirs.pinduct)
  case (1 level rows cols pos s)
  from 1(3) obtain vis depth where
    vis: "set_cell (dfs_visited s) pos True = Inr vis"
    and dep: "parent_depth (dfs_parent s) pos 0 = Some (Inr depth)"
    by (auto simp: dfs.psimps [OF 1(1)] split: sum.splits option.splits)
  have le: "count_cells (\<lambda>b. \<not> b) vis \<le> count_cells (\<lambda>b. \<not> b) (dfs_visited s)"
    using count_cells_set_cell_le [OF vis, of "\<lambda>b. \<not> b"] by simp
  show ?case
  proof (cases "canExit level rows cols pos")
    case (Inl e)
    with 1(3) vis dep show ?thesis by (simp add: dfs.psimps [OF 1(1)])
  next
    case (Inr b)
    show ?thesis
    proof (cases b)
      case True
      with 1(3) vis dep Inr le show ?thesis by (auto simp: dfs.psimps [OF 1(1)])
    next
      case False
      with 1(3) vis dep Inr have
        "dfs_dirs level rows cols pos depth DIRS 0 (s\<lparr>dfs_visited := vis, dfs_seen := dfs_seen s @ [pos]\<rparr>)
           = Some (Inr (res, s'))"
        by (simp add: dfs.psimps [OF 1(1)])
      from 1(2) [OF vis dep refl Inr _ this] False le show ?thesis by simp
    qed
  qed
next
  case (2 level rows cols pos depth valid s)
  then show ?case by (auto simp: dfs_dirs.psimps)
next
  case (3 level rows cols pos depth d ds valid s)
  note dom = 3(1)
  note run = 3(7)
  show ?case
  proof (cases "outside rows cols (step_to pos d)")
    case True
    with run have "dfs_dirs level rows cols pos depth ds valid s = Some (Inr (res, s'))"
      by (simp add: dfs_dirs.psimps(2) [OF dom])
    from 3(2) [OF True this] show ?thesis .
  next
    case out: False
    show ?thesis
    proof (cases "canMoveBetween level pos (step_to pos d)")
      case (Inl e)
      with run out show ?thesis by (simp add: dfs_dirs.psimps(2) [OF dom])
    next
      case mv: (Inr b)
      show ?thesis
      proof (cases b)
        case False
        with run out mv have "dfs_dirs level rows cols pos depth ds valid s = Some (Inr (res, s'))"
          by (simp add: dfs_dirs.psimps(2) [OF dom])
        from 3(6) [OF out mv _ this] False show ?thesis by simp
      next
        case True
        show ?thesis
        proof (cases "cell_at (dfs_visited s) (step_to pos d)")
          case (Inl e)
          with run out mv True show ?thesis by (simp add: dfs_dirs.psimps(2) [OF dom])
        next
          case seen: (Inr v)
          show ?thesis
          proof (cases v)
            case vt: True
            with run out mv True seen
            have "dfs_dirs level rows cols pos depth ds valid s = Some (Inr (res, s'))"
              by (simp add: dfs_dirs.psimps(2) [OF dom])
            from 3(3) [OF out mv _ seen _ this] True vt show ?thesis by simp
          next
            case vf: False
            show ?thesis
            proof (cases "set_cell (dfs_parent s) (step_to pos d) (Some pos)")
              case (Inl e)
              with run out mv True seen vf show ?thesis by (simp add: dfs_dirs.psimps(2) [OF dom])
            next
              case par: (Inr par)
              show ?thesis
              proof (cases "dfs level rows cols (step_to pos d) (s\<lparr>dfs_parent := par\<rparr>)")
                case None
                with run out mv True seen vf par show ?thesis by (simp add: dfs_dirs.psimps(2) [OF dom])
              next
                case (Some x)
                show ?thesis
                proof (cases x)
                  case (Inl e)
                  with run out mv True seen vf par Some show ?thesis
                    by (simp add: dfs_dirs.psimps(2) [OF dom])
                next
                  case (Inr y)
                  obtain found s1 where y: "y = (found, s1)" by (cases y)
                  from 3(4) [OF out mv _ seen _ par] True vf Some Inr y
                  have le1: "count_cells (\<lambda>b. \<not> b) (dfs_visited s1) \<le> count_cells (\<lambda>b. \<not> b) (dfs_visited s)"
                    by simp
                  show ?thesis
                  proof (cases found)
                    case None
                    with run out mv True seen vf par Some Inr y
                    have "dfs_dirs level rows cols pos depth ds (valid + 1) s1 = Some (Inr (res, s'))"
                      by (simp add: dfs_dirs.psimps(2) [OF dom])
                    from 3(5) [OF out mv _ seen _ par Some Inr y [symmetric] None this] True vf le1
                    show ?thesis by simp
                  next
                    case (Some f)
                    with run out mv True seen vf par \<open>dfs level rows cols (step_to pos d) (s\<lparr>dfs_parent := par\<rparr>) = Some x\<close> Inr y le1
                    show ?thesis by (auto simp: dfs_dirs.psimps(2) [OF dom])
                  qed
                qed
              qed
            qed
          qed
        qed
      qed
    qed
  qed
qed

termination dfs
proof (relation "inv_image (less_than <*lex*> less_than) (\<lambda>x. case x of
      Inl (level, rows, cols, pos, s) \<Rightarrow>
        (count_cells (\<lambda>b. \<not> b) (case set_cell (dfs_visited s) pos True of Inr v \<Rightarrow> v | Inl e \<Rightarrow> dfs_visited s), 5::nat)
    | Inr (level, rows, cols, pos, depth, ds, valid, s) \<Rightarrow>
        (count_cells (\<lambda>b. \<not> b) (dfs_visited s), length ds))", goal_cases)
  case 1
  show ?case by auto
next
  case 2
  then show ?case by (simp add: DIRS_def)
next
  case 3
  then show ?case by simp
next
  case 4
  then show ?case by simp
next
  case (5 level rows cols pos depth d ds valid s b ba bb)
  then obtain v where v: "set_cell (dfs_visited s) (step_to pos d) True = Inr v"
    by (auto simp: set_cell_def cell_at_def split: if_splits)
  from count_cells_set_cell [OF v, of False "\<lambda>b. \<not> b"] 5 v
  show ?case by auto
next
  case (6 level rows cols pos depth d ds valid s b ba bb x2 bc x y)
  then have dom: "dfs_dfs_dirs_dom (Inl (level, rows, cols, step_to pos d, s\<lparr>dfs_parent := bb\<rparr>))"
    and run: "dfs level rows cols (step_to pos d) (s\<lparr>dfs_parent := bb\<rparr>) = Some (Inr (x, y))"
    by simp_all
  from dfs_count_le(1) [OF dom run] show ?case by auto
next
  case 7
  then show ?case by simp
qed

declare dfs.simps [simp del]


definition solveDFS :: "Level \<Rightarrow> Solution option run" where
  "solveDFS level =
     (case grid level of
        [] \<Rightarrow> Some (Inl IndexOutOfRange)
      | row0 # _ \<Rightarrow>
          (let rows = int (length (grid level)); cols = int (length row0) in
           case dfs level rows cols (start level)
                  \<lparr>dfs_visited = filled rows cols False, dfs_parent = filled rows cols None,
                   dfs_seen = [], dfs_steps = [], dfs_stepNumber = 0\<rparr> of
             None \<Rightarrow> None
           | Some (Inl e) \<Rightarrow> Some (Inl e)
           | Some (Inr (None, s)) \<Rightarrow> Some (Inr None)
           | Some (Inr (Some exitPos, s)) \<Rightarrow>
               (case parent_path (dfs_parent s) exitPos [] of
                  None \<Rightarrow> None
                | Some (Inl e) \<Rightarrow> Some (Inl e)
                | Some (Inr p) \<Rightarrow>
                    Some (Inr (Some \<lparr>distance = int (length p) - 1, path = rev p,
                      visitedCells = dfs_seen s, algorithm = ''DFS'',
                      detailedSteps = dfs_steps s, aStarScores = None\<rparr>)))))"



section \<open>A* (\<^verbatim>\<open>solveAStar\<close>)\<close>

text \<open>The linear scan for the entry of the open list with the lowest score:
  \<^verbatim>\<open>for (let i = 1; i < openSet.length; i++) if (score[openSet[i]] < score[current]) ...\<close>.
  A strict comparison, so the first of several equal entries stays.\<close>

fun find_lowest :: "number list list \<Rightarrow> Pos list \<Rightarrow> nat \<Rightarrow> Pos \<Rightarrow> nat \<Rightarrow> error + (Pos \<times> nat)" where
  "find_lowest score [] i current currentIndex = Inr (current, currentIndex)"
| "find_lowest score (p # ps) i current currentIndex =
     (case cell_at score p of
        Inl e \<Rightarrow> Inl e
      | Inr a \<Rightarrow>
          (case cell_at score current of
             Inl e \<Rightarrow> Inl e
           | Inr b \<Rightarrow>
               if number_less a b then find_lowest score ps (i + 1) p i
               else find_lowest score ps (i + 1) current currentIndex))"

text \<open>\<^verbatim>\<open>openSet.splice(currentIndex, 1)\<close>\<close>

definition splice1 :: "nat \<Rightarrow> 'a list \<Rightarrow> 'a list" where
  "splice1 i xs = take i xs @ drop (i + 1) xs"

text \<open>The \<^verbatim>\<open>for (const d of DIRS)\<close> of one A* expansion. \<^verbatim>\<open>fScore\<close> of the neighbour is
  computed from the \<^verbatim>\<open>gScore\<close> stored on the line before, which is \<open>tentative\<close>.\<close>

fun astar_neighbors ::
  "Level \<Rightarrow> int \<Rightarrow> int \<Rightarrow> Pos \<Rightarrow> bool list list \<Rightarrow> Pos list \<Rightarrow>
     Pos option list list \<Rightarrow> number list list \<Rightarrow> number list list \<Rightarrow> Pos list
     \<Rightarrow> error + (Pos option list list \<times> number list list \<times> number list list \<times> Pos list)" where
  "astar_neighbors level rows cols current vis [] parent g f openSet = Inr (parent, g, f, openSet)"
| "astar_neighbors level rows cols current vis (d # ds) parent g f openSet =
     (let neighbor = step_to current d in
      if outside rows cols neighbor then astar_neighbors level rows cols current vis ds parent g f openSet
      else case canMoveBetween level current neighbor of
        Inl e \<Rightarrow> Inl e
      | Inr False \<Rightarrow> astar_neighbors level rows cols current vis ds parent g f openSet
      | Inr True \<Rightarrow>
          (case cell_at vis neighbor of
             Inl e \<Rightarrow> Inl e
           | Inr True \<Rightarrow> astar_neighbors level rows cols current vis ds parent g f openSet
           | Inr False \<Rightarrow>
               (case cell_at g current of
                  Inl e \<Rightarrow> Inl e
                | Inr gc \<Rightarrow>
                    (let tentative = number_plus gc 1 in
                     case cell_at g neighbor of
                       Inl e \<Rightarrow> Inl e
                     | Inr gn \<Rightarrow>
                         if number_less tentative gn then
                           (case set_cell parent neighbor (Some current) of
                              Inl e \<Rightarrow> Inl e
                            | Inr parent' \<Rightarrow>
                                (case set_cell g neighbor tentative of
                                   Inl e \<Rightarrow> Inl e
                                 | Inr g' \<Rightarrow>
                                     (case set_cell f neighbor
                                             (number_plus tentative (heuristic neighbor rows cols)) of
                                        Inl e \<Rightarrow> Inl e
                                      | Inr f' \<Rightarrow>
                                          astar_neighbors level rows cols current vis ds parent' g' f'
                                            (if neighbor \<in> set openSet then openSet
                                             else openSet @ [neighbor]))))
                         else astar_neighbors level rows cols current vis ds parent g f openSet))))"

text \<open>The cells that may still enter the open list: not yet expanded and not in the list.\<close>

definition waiting :: "bool list list \<Rightarrow> Pos list \<Rightarrow> Pos set" where
  "waiting vis openSet = {p. cell_at vis p = Inr False \<and> p \<notin> set openSet}"

lemma finite_in_range: "finite {p. in_range m p}"
proof -
  have "{p. in_range m p} \<subseteq> (\<Union>i \<in> {..<length m}. (\<lambda>j. (int i, int j)) ` {..<length (m ! i)})"
  proof
    fix p assume "p \<in> {p. in_range m p}"
    then have r: "in_range m p" by simp
    then have "nat (fst p) < length m" "nat (snd p) < length (m ! nat (fst p))"
      "p = (int (nat (fst p)), int (nat (snd p)))"
      by (auto simp: in_range_def)
    then show "p \<in> (\<Union>i \<in> {..<length m}. (\<lambda>j. (int i, int j)) ` {..<length (m ! i)})"
      by blast
  qed
  then show ?thesis by (rule finite_subset) simp
qed

lemma finite_waiting: "finite (waiting vis openSet)"
proof (rule finite_subset [OF _ finite_in_range [of vis]])
  show "waiting vis openSet \<subseteq> {p. in_range vis p}"
    by (auto simp: waiting_def cell_at_def split: if_splits)
qed

lemma waiting_push:
  assumes "cell_at vis n = Inr False" "n \<notin> set openSet"
  shows "Suc (card (waiting vis (openSet @ [n]))) = card (waiting vis openSet)"
proof -
  have "waiting vis (openSet @ [n]) = waiting vis openSet - {n}"
    by (auto simp: waiting_def)
  moreover have "n \<in> waiting vis openSet"
    using assms by (simp add: waiting_def)
  ultimately show ?thesis
    using card_Suc_Diff1 [OF finite_waiting [of vis openSet], of n] by simp
qed

lemma astar_neighbors_measure:
  "astar_neighbors level rows cols current vis ds parent g f openSet = Inr (parent', g', f', openSet') \<Longrightarrow>
   2 * card (waiting vis openSet') + length openSet' \<le> 2 * card (waiting vis openSet) + length openSet"
proof (induction ds arbitrary: parent g f openSet)
  case Nil
  then show ?case by simp
next
  case (Cons d ds)
  let ?n = "step_to current d"
  have skip: "astar_neighbors level rows cols current vis ds parent g f openSet = Inr (parent', g', f', openSet')
    \<Longrightarrow> ?case" using Cons.IH by blast
  have push: "astar_neighbors level rows cols current vis ds p2 g2 f2 (openSet @ [?n]) = Inr (parent', g', f', openSet')
    \<Longrightarrow> cell_at vis ?n = Inr False \<Longrightarrow> ?n \<notin> set openSet \<Longrightarrow> ?case" for p2 g2 f2
    using Cons.IH [of p2 g2 f2 "openSet @ [?n]"] waiting_push [of vis ?n openSet] by simp
  have keep: "astar_neighbors level rows cols current vis ds p2 g2 f2 openSet = Inr (parent', g', f', openSet')
    \<Longrightarrow> ?case" for p2 g2 f2
    using Cons.IH by blast
  from Cons.prems show ?case
    by (auto simp: Let_def split: if_splits sum.splits bool.splits intro: skip push keep)
qed


lemma find_lowest_index:
  "find_lowest score ps i current currentIndex = Inr (c, k) \<Longrightarrow>
   (k = currentIndex \<and> c = current) \<or> (i \<le> k \<and> k < i + length ps \<and> c = ps ! (k - i))"
proof (induction ps arbitrary: i current currentIndex)
  case Nil
  then show ?case by simp
next
  case (Cons p ps)
  from Cons.prems obtain a b where
    "cell_at score p = Inr a" "cell_at score current = Inr b"
    by (auto split: sum.splits)
  with Cons.prems have
    "find_lowest score ps (i + 1) (if number_less a b then p else current)
       (if number_less a b then i else currentIndex) = Inr (c, k)"
    by (auto split: if_splits)
  from Cons.IH [OF this] show ?case
    by (auto split: if_splits simp: nth_Cons')
qed

lemma find_lowest_member:
  assumes "find_lowest score others 1 first 0 = Inr (c, k)"
  shows "k < length (first # others) \<and> (first # others) ! k = c"
  using find_lowest_index [OF assms] by (auto simp: nth_Cons')

lemma splice1_length: "k < length xs \<Longrightarrow> Suc (length (splice1 k xs)) = length xs"
  by (auto simp: splice1_def)

lemma splice1_set: "k < length xs \<Longrightarrow> set xs \<subseteq> insert (xs ! k) (set (splice1 k xs))"
proof
  fix x assume k: "k < length xs" and "x \<in> set xs"
  then obtain j where j: "j < length xs" "xs ! j = x" by (auto simp: in_set_conv_nth)
  have "xs = take k xs @ xs ! k # drop (Suc k) xs" using k by (rule id_take_nth_drop)
  then have "set xs = set (take k xs @ xs ! k # drop (Suc k) xs)" by simp
  then have "set xs = set (take k xs) \<union> {xs ! k} \<union> set (drop (Suc k) xs)"
    by (simp only: set_append list.set) auto
  with \<open>x \<in> set xs\<close> show "x \<in> insert (xs ! k) (set (splice1 k xs))"
    by (auto simp: splice1_def)
qed


lemma cell_at_in_range: "cell_at m p = Inr x \<Longrightarrow> in_range m p"
  by (simp add: cell_at_def split: if_splits)

lemma set_cell_in_range: "set_cell m p v = Inr m' \<Longrightarrow> in_range m p"
  by (simp add: set_cell_def split: if_splits)

lemma set_cell_ok: "in_range m p \<Longrightarrow> \<exists>m'. set_cell m p v = Inr m'"
  by (simp add: set_cell_def)

lemma cell_at_ok: "in_range m p \<Longrightarrow> \<exists>x. cell_at m p = Inr x"
  by (simp add: cell_at_def)

lemma in_range_nat:
  "in_range m p \<Longrightarrow> nat (fst p) < length m \<and> nat (snd p) < length (m ! nat (fst p))"
  by (auto simp: in_range_def)

lemma in_range_set_cell:
  assumes "set_cell m p v = Inr m'"
  shows "in_range m' q = in_range m q"
proof -
  from assms have m': "m' = m[nat (fst p) := (m ! nat (fst p))[nat (snd p) := v]]"
    and rng: "in_range m p"
    by (auto simp: set_cell_def split: if_splits)
  have len: "length m' = length m" by (simp add: m')
  have row: "length (m' ! i) = length (m ! i)" if "i < length m" for i
    using that by (cases "i = nat (fst p)") (simp_all add: m')
  show ?thesis
    unfolding in_range_def len
    using row [of "nat (fst q)"] by auto
qed

lemma cell_at_set_cell:
  assumes "set_cell m p v = Inr m'"
  shows "cell_at m' q = (if q = p then Inr v else cell_at m q)"
proof -
  from assms have m': "m' = m[nat (fst p) := (m ! nat (fst p))[nat (snd p) := v]]"
    and rng: "in_range m p"
    by (auto simp: set_cell_def split: if_splits)
  note ir = in_range_set_cell [OF assms, of q]
  show ?thesis
  proof (cases "q = p")
    case True
    with rng ir have "in_range m' p" by simp
    moreover have "m' ! nat (fst p) ! nat (snd p) = v"
      using in_range_nat [OF rng] by (simp add: m')
    ultimately show ?thesis using True by (simp add: cell_at_def)
  next
    case False
    show ?thesis
    proof (cases "in_range m q")
      case r: True
      have "m' ! nat (fst q) ! nat (snd q) = m ! nat (fst q) ! nat (snd q)"
      proof (cases "nat (fst q) = nat (fst p)")
        case same: True
        with r rng False have "nat (snd q) \<noteq> nat (snd p)"
          by (cases p; cases q) (auto simp: in_range_def)
        with same in_range_nat [OF rng] show ?thesis by (simp add: m')
      next
        case False
        then show ?thesis by (simp add: m')
      qed
      with r ir False show ?thesis by (simp add: cell_at_def)
    next
      case False
      with ir \<open>q \<noteq> p\<close> show ?thesis by (simp add: cell_at_def)
    qed
  qed
qed

lemma waiting_pop:
  assumes "k < length openSet" "set_cell vis (openSet ! k) True = Inr vis'"
  shows "card (waiting vis' (splice1 k openSet)) \<le> card (waiting vis openSet)"
proof (rule card_mono [OF finite_waiting])
  show "waiting vis' (splice1 k openSet) \<subseteq> waiting vis openSet"
  proof
    fix p assume "p \<in> waiting vis' (splice1 k openSet)"
    then have p: "cell_at vis' p = Inr False" "p \<notin> set (splice1 k openSet)"
      by (auto simp: waiting_def)
    from p(1) have ne: "p \<noteq> openSet ! k" and "cell_at vis p = Inr False"
      by (auto simp: cell_at_set_cell [OF assms(2)] split: if_splits)
    moreover from p(2) ne splice1_set [OF assms(1)] have "p \<notin> set openSet" by auto
    ultimately show "p \<in> waiting vis openSet" by (simp add: waiting_def)
  qed
qed


text \<open>\<^verbatim>\<open>gScore.map((row, r) => row.map((_, c) => heuristic({ r, c }, rows, cols)))\<close>\<close>

definition hScoresArray :: "number list list \<Rightarrow> int \<Rightarrow> int \<Rightarrow> int list list" where
  "hScoresArray g rows cols =
     map (\<lambda>r. map (\<lambda>c. heuristic (int r, int c) rows cols) [0..<length (g ! r)]) [0..<length g]"

text \<open>The main \<^verbatim>\<open>while (openSet.length > 0)\<close> of \<^verbatim>\<open>solveAStar\<close>.\<close>

function astar_loop ::
  "Level \<Rightarrow> int \<Rightarrow> int \<Rightarrow> Pos list \<Rightarrow> bool list list \<Rightarrow> Pos option list list \<Rightarrow>
     number list list \<Rightarrow> number list list \<Rightarrow> Pos list \<Rightarrow> DetailedStep list \<Rightarrow> nat
     \<Rightarrow> Solution option run" where
  "astar_loop level rows cols openSet vis parent g f seen steps stepNo =
     (case openSet of
        [] \<Rightarrow> Some (Inr None)
      | first # others \<Rightarrow>
          (case find_lowest f others 1 first 0 of
             Inl e \<Rightarrow> Some (Inl e)
           | Inr (current, currentIndex) \<Rightarrow>
               (case set_cell vis current True of
                  Inl e \<Rightarrow> Some (Inl e)
                | Inr vis' \<Rightarrow>
                    (case cell_at g current of
                       Inl e \<Rightarrow> Some (Inl e)
                     | Inr currentG \<Rightarrow>
                         (case cell_at f current of
                            Inl e \<Rightarrow> Some (Inl e)
                          | Inr currentF \<Rightarrow>
                              (case canExit level rows cols current of
                                 Inl e \<Rightarrow> Some (Inl e)
                               | Inr True \<Rightarrow>
                                   (case parent_path parent current [] of
                                      None \<Rightarrow> None
                                    | Some (Inl e) \<Rightarrow> Some (Inl e)
                                    | Some (Inr p) \<Rightarrow>
                                        Some (Inr (Some \<lparr>distance = int (length p) - 1, path = rev p,
                                          visitedCells = seen @ [current], algorithm = ''A*'',
                                          detailedSteps = steps @ [\<lparr>position = current, stepNumber = stepNo,
                                            algorithmData = AStarData currentG (heuristic current rows cols)
                                              currentF (length (splice1 currentIndex openSet))\<rparr>],
                                          aStarScores = Some \<lparr>gScores = g,
                                            hScores = hScoresArray g rows cols, fScores = f\<rparr>\<rparr>)))
                               | Inr False \<Rightarrow>
                                   (case astar_neighbors level rows cols current vis' DIRS parent g f
                                           (splice1 currentIndex openSet) of
                                      Inl e \<Rightarrow> Some (Inl e)
                                    | Inr (parent', g', f', openSet') \<Rightarrow>
                                        astar_loop level rows cols openSet' vis' parent' g' f'
                                          (seen @ [current])
                                          (steps @ [\<lparr>position = current, stepNumber = stepNo,
                                            algorithmData = AStarData currentG (heuristic current rows cols)
                                              currentF (length (splice1 currentIndex openSet))\<rparr>])
                                          (stepNo + 1))))))))"
  by pat_completeness auto

termination astar_loop
proof (relation "measure (\<lambda>(level, rows, cols, openSet, vis, parent, g, f, seen, steps, stepNo).
          2 * card (waiting vis openSet) + length openSet)", goal_cases)
  case 1
  show ?case by simp
next
  case (2 level rows cols openSet vis parent g f seen steps stepNo first others found current
      currentIndex vis' currentG currentF ex nb parent' rest1 g' rest2 f' openSet')
  then have low: "find_lowest f others 1 first 0 = Inr (current, currentIndex)"
    and os: "openSet = first # others"
    and vis': "set_cell vis current True = Inr vis'"
    and nb: "astar_neighbors level rows cols current vis' DIRS parent g f (splice1 currentIndex openSet)
               = Inr (parent', g', f', openSet')"
    by simp_all
  from find_lowest_member [OF low] os have k: "currentIndex < length openSet"
    and cur: "openSet ! currentIndex = current" by simp_all
  from waiting_pop [OF k] cur vis'
  have "card (waiting vis' (splice1 currentIndex openSet)) \<le> card (waiting vis openSet)" by simp
  with astar_neighbors_measure [OF nb] splice1_length [OF k]
  show ?case by simp
qed

declare astar_loop.simps [simp del]

definition solveAStar :: "Level \<Rightarrow> Solution option run" where
  "solveAStar level =
     (case grid level of
        [] \<Rightarrow> Some (Inl IndexOutOfRange)
      | row0 # _ \<Rightarrow>
          (let rows = int (length (grid level)); cols = int (length row0) in
           case set_cell (filled rows cols Infinity) (start level) (Fin 0) of
             Inl e \<Rightarrow> Some (Inl e)
           | Inr g \<Rightarrow>
               (case set_cell (filled rows cols Infinity) (start level)
                       (Fin (heuristic (start level) rows cols)) of
                  Inl e \<Rightarrow> Some (Inl e)
                | Inr f \<Rightarrow>
                    astar_loop level rows cols [start level] (filled rows cols False)
                      (filled rows cols None) g f [] [] 0)))"

section \<open>Dijkstra (\<^verbatim>\<open>solveDijkstra\<close>)\<close>

text \<open>The \<^verbatim>\<open>for (const d of DIRS)\<close> of one expansion; it updates \<^verbatim>\<open>distance\<close>, \<^verbatim>\<open>parent\<close>,
  \<^verbatim>\<open>queue\<close> and \<^verbatim>\<open>relaxationCount\<close>.\<close>

fun dijkstra_neighbors ::
  "Level \<Rightarrow> int \<Rightarrow> int \<Rightarrow> Pos \<Rightarrow> bool list list \<Rightarrow> Pos list \<Rightarrow>
     number list list \<Rightarrow> Pos option list list \<Rightarrow> Pos list \<Rightarrow> nat
     \<Rightarrow> error + (number list list \<times> Pos option list list \<times> Pos list \<times> nat)" where
  "dijkstra_neighbors level rows cols current vis [] dists parent queue relaxed =
     Inr (dists, parent, queue, relaxed)"
| "dijkstra_neighbors level rows cols current vis (d # ds) dists parent queue relaxed =
     (let neighbor = step_to current d in
      if outside rows cols neighbor
      then dijkstra_neighbors level rows cols current vis ds dists parent queue relaxed
      else case canMoveBetween level current neighbor of
        Inl e \<Rightarrow> Inl e
      | Inr False \<Rightarrow> dijkstra_neighbors level rows cols current vis ds dists parent queue relaxed
      | Inr True \<Rightarrow>
          (case cell_at vis neighbor of
             Inl e \<Rightarrow> Inl e
           | Inr True \<Rightarrow> dijkstra_neighbors level rows cols current vis ds dists parent queue relaxed
           | Inr False \<Rightarrow>
               (case cell_at dists current of
                  Inl e \<Rightarrow> Inl e
                | Inr dc \<Rightarrow>
                    (let newDistance = number_plus dc 1 in
                     case cell_at dists neighbor of
                       Inl e \<Rightarrow> Inl e
                     | Inr dn \<Rightarrow>
                         if number_less newDistance dn then
                           (case set_cell dists neighbor newDistance of
                              Inl e \<Rightarrow> Inl e
                            | Inr dists' \<Rightarrow>
                                (case set_cell parent neighbor (Some current) of
                                   Inl e \<Rightarrow> Inl e
                                 | Inr parent' \<Rightarrow>
                                     dijkstra_neighbors level rows cols current vis ds dists' parent'
                                       (if neighbor \<in> set queue then queue else queue @ [neighbor])
                                       (relaxed + 1)))
                         else dijkstra_neighbors level rows cols current vis ds dists parent queue relaxed))))"

lemma dijkstra_neighbors_measure:
  "dijkstra_neighbors level rows cols current vis ds dists parent queue relaxed
     = Inr (dists', parent', queue', relaxed') \<Longrightarrow>
   2 * card (waiting vis queue') + length queue' \<le> 2 * card (waiting vis queue) + length queue"
proof (induction ds arbitrary: dists parent queue relaxed)
  case Nil
  then show ?case by simp
next
  case (Cons d ds)
  let ?n = "step_to current d"
  have push: "dijkstra_neighbors level rows cols current vis ds d2 p2 (queue @ [?n]) r2
      = Inr (dists', parent', queue', relaxed')
    \<Longrightarrow> cell_at vis ?n = Inr False \<Longrightarrow> ?n \<notin> set queue \<Longrightarrow> ?case" for d2 p2 r2
    using Cons.IH [of d2 p2 "queue @ [?n]" r2] waiting_push [of vis ?n queue] by simp
  have keep: "dijkstra_neighbors level rows cols current vis ds d2 p2 queue r2
      = Inr (dists', parent', queue', relaxed')
    \<Longrightarrow> ?case" for d2 p2 r2
    using Cons.IH by blast
  from Cons.prems show ?case
    by (auto simp: Let_def split: if_splits sum.splits bool.splits intro: push keep)
qed

text \<open>The main \<^verbatim>\<open>while (queue.length > 0)\<close> of \<^verbatim>\<open>solveDijkstra\<close>.\<close>

function dijkstra_loop ::
  "Level \<Rightarrow> int \<Rightarrow> int \<Rightarrow> Pos list \<Rightarrow> bool list list \<Rightarrow> number list list \<Rightarrow>
     Pos option list list \<Rightarrow> Pos list \<Rightarrow> DetailedStep list \<Rightarrow> nat \<Rightarrow> Solution option run" where
  "dijkstra_loop level rows cols queue vis dists parent seen steps stepNo =
     (case queue of
        [] \<Rightarrow> Some (Inr None)
      | first # others \<Rightarrow>
          (case find_lowest dists others 1 first 0 of
             Inl e \<Rightarrow> Some (Inl e)
           | Inr (current, currentIndex) \<Rightarrow>
               (case set_cell vis current True of
                  Inl e \<Rightarrow> Some (Inl e)
                | Inr vis' \<Rightarrow>
                    (case canExit level rows cols current of
                       Inl e \<Rightarrow> Some (Inl e)
                     | Inr True \<Rightarrow>
                         (case parent_path parent current [] of
                            None \<Rightarrow> None
                          | Some (Inl e) \<Rightarrow> Some (Inl e)
                          | Some (Inr p) \<Rightarrow>
                              Some (Inr (Some \<lparr>distance = int (length p) - 1, path = rev p,
                                visitedCells = seen @ [current], algorithm = ''Dijkstra'',
                                detailedSteps = steps, aStarScores = None\<rparr>)))
                     | Inr False \<Rightarrow>
                         (case dijkstra_neighbors level rows cols current vis' DIRS dists parent
                                 (splice1 currentIndex queue) 0 of
                            Inl e \<Rightarrow> Some (Inl e)
                          | Inr (dists', parent', queue', relaxed) \<Rightarrow>
                              (case cell_at dists' current of
                                 Inl e \<Rightarrow> Some (Inl e)
                               | Inr curDistance \<Rightarrow>
                                   dijkstra_loop level rows cols queue' vis' dists' parent'
                                     (seen @ [current])
                                     (steps @ [\<lparr>position = current, stepNumber = stepNo,
                                       algorithmData = DijkstraData curDistance relaxed (length queue')\<rparr>])
                                     (stepNo + 1)))))))"
  by pat_completeness auto

termination dijkstra_loop
proof (relation "measure (\<lambda>(level, rows, cols, queue, vis, dists, parent, seen, steps, stepNo).
          2 * card (waiting vis queue) + length queue)", goal_cases)
  case 1
  show ?case by simp
next
  case (2 level rows cols queue vis dists parent seen steps stepNo first others found current
      currentIndex vis' ex nb dists' rest1 parent' rest2 queue' relaxed curDistance)
  then have low: "find_lowest dists others 1 first 0 = Inr (current, currentIndex)"
    and os: "queue = first # others"
    and vis': "set_cell vis current True = Inr vis'"
    and nb: "dijkstra_neighbors level rows cols current vis' DIRS dists parent (splice1 currentIndex queue) 0
               = Inr (dists', parent', queue', relaxed)"
    by simp_all
  from find_lowest_member [OF low] os have k: "currentIndex < length queue"
    and cur: "queue ! currentIndex = current" by simp_all
  from waiting_pop [OF k] cur vis'
  have "card (waiting vis' (splice1 currentIndex queue)) \<le> card (waiting vis queue)" by simp
  with dijkstra_neighbors_measure [OF nb] splice1_length [OF k]
  show ?case by simp
qed

declare dijkstra_loop.simps [simp del]

definition solveDijkstra :: "Level \<Rightarrow> Solution option run" where
  "solveDijkstra level =
     (case grid level of
        [] \<Rightarrow> Some (Inl IndexOutOfRange)
      | row0 # _ \<Rightarrow>
          (let rows = int (length (grid level)); cols = int (length row0) in
           case set_cell (filled rows cols Infinity) (start level) (Fin 0) of
             Inl e \<Rightarrow> Some (Inl e)
           | Inr dists \<Rightarrow>
               dijkstra_loop level rows cols [start level] (filled rows cols False) dists
                 (filled rows cols None) [] [] 0))"

text \<open>\<^verbatim>\<open>solve\<close>: the dispatcher.\<close>

definition solve :: "Level \<Rightarrow> Algorithm \<Rightarrow> Solution option run" where
  "solve level alg =
     (case alg of BFS \<Rightarrow> solveBFS level | DFS \<Rightarrow> solveDFS level
      | AStar \<Rightarrow> solveAStar level | Dijkstra \<Rightarrow> solveDijkstra level)"



section \<open>The maze generator (\<^verbatim>\<open>generateMaze\<close>)\<close>

text \<open>
  \<^verbatim>\<open>Math.random()\<close> is modelled by the sequence \<open>rng\<close> of the numbers it returns, any real
  numbers; the thresholds and the products are exact. A choice \<^verbatim>\<open>xs[Math.floor(x * n)]\<close>
  outside the list is \<^verbatim>\<open>undefined\<close> in JavaScript and the next line dereferences it.
\<close>

datatype Difficulty = Easy | Normal | Hard

text \<open>\<^verbatim>\<open>xs[Math.floor(Math.random() * xs.length)]\<close>, with \<open>x\<close> the number drawn.\<close>

definition random_element :: "real \<Rightarrow> 'a list \<Rightarrow> error + 'a" where
  "random_element x xs =
     (let k = \<lfloor>x * real (length xs)\<rfloor> in
      if 0 \<le> k \<and> k < int (length xs) then Inr (xs ! nat k) else Inl IndexOutOfRange)"

definition getRandomNeighbor ::
  "int \<Rightarrow> int \<Rightarrow> Difficulty \<Rightarrow> (nat \<Rightarrow> real) \<Rightarrow> nat \<Rightarrow> Pos list \<Rightarrow> error + (Pos \<times> nat)" where
  "getRandomNeighbor width height difficulty rng i neighbors =
     (case difficulty of
        Easy \<Rightarrow>
          (let edgeNeighbors = filter (\<lambda>n.
                 real_of_int (fst n) < real_of_int height / 3 \<or> real_of_int (fst n) > (2 * real_of_int height) / 3 \<or>
                 real_of_int (snd n) < real_of_int width / 3 \<or> real_of_int (snd n) > (2 * real_of_int width) / 3) neighbors in
           if edgeNeighbors \<noteq> [] then
             (if rng i < 7 / 10
              then map_sum id (\<lambda>n. (n, i + 2)) (random_element (rng (i + 1)) edgeNeighbors)
              else map_sum id (\<lambda>n. (n, i + 2)) (random_element (rng (i + 1)) neighbors))
           else map_sum id (\<lambda>n. (n, i + 1)) (random_element (rng i) neighbors))
      | Hard \<Rightarrow>
          (if rng i < 3 / 10 then
             (let centerNeighbors = filter (\<lambda>n.
                    real_of_int (fst n) > real_of_int height / 4 \<and> real_of_int (fst n) < (3 * real_of_int height) / 4 \<and>
                    real_of_int (snd n) > real_of_int width / 4 \<and> real_of_int (snd n) < (3 * real_of_int width) / 4) neighbors in
              if centerNeighbors \<noteq> []
              then map_sum id (\<lambda>n. (n, i + 2)) (random_element (rng (i + 1)) centerNeighbors)
              else map_sum id (\<lambda>n. (n, i + 2)) (random_element (rng (i + 1)) neighbors))
           else map_sum id (\<lambda>n. (n, i + 2)) (random_element (rng (i + 1)) neighbors))
      | Normal \<Rightarrow> map_sum id (\<lambda>n. (n, i + 1)) (random_element (rng i) neighbors))"


text \<open>\<^verbatim>\<open>cells[p.r][p.c].<field> = ...\<close>: read the cell object, change one field.\<close>

definition update_cell :: "MazeCell list list \<Rightarrow> Pos \<Rightarrow> (MazeCell \<Rightarrow> MazeCell) \<Rightarrow> error + MazeCell list list" where
  "update_cell cs p f = (case cell_at cs p of Inl e \<Rightarrow> Inl e | Inr cell \<Rightarrow> set_cell cs p (f cell))"

definition directions :: "Pos list" where
  "directions = [(-1, 0), (1, 0), (0, -1), (0, 1)]"

text \<open>The \<^verbatim>\<open>for (const dir of directions)\<close> that collects the unvisited neighbours.\<close>

fun unvisited_neighbors :: "int \<Rightarrow> int \<Rightarrow> MazeCell list list \<Rightarrow> Pos \<Rightarrow> Pos list \<Rightarrow> Pos list \<Rightarrow> error + Pos list" where
  "unvisited_neighbors width height cs current [] neighbors = Inr neighbors"
| "unvisited_neighbors width height cs current (dir # dirs) neighbors =
     (let next = step_to current dir in
      if fst next \<ge> 0 \<and> fst next < height \<and> snd next \<ge> 0 \<and> snd next < width then
        (case cell_at cs next of
           Inl e \<Rightarrow> Inl e
         | Inr cell \<Rightarrow>
             if \<not> visited cell then unvisited_neighbors width height cs current dirs (neighbors @ [next])
             else unvisited_neighbors width height cs current dirs neighbors)
      else unvisited_neighbors width height cs current dirs neighbors)"

text \<open>"Remove walls between current and next cell": the \<^verbatim>\<open>if / else if\<close> chain.\<close>

definition remove_walls :: "MazeCell list list \<Rightarrow> Pos \<Rightarrow> Pos \<Rightarrow> error + MazeCell list list" where
  "remove_walls cs current next =
     (if fst next < fst current then
        (case update_cell cs current (\<lambda>cell. cell\<lparr>walls := (walls cell)\<lparr>top_wall := False\<rparr>\<rparr>) of
           Inl e \<Rightarrow> Inl e
         | Inr cs' \<Rightarrow> update_cell cs' next (\<lambda>cell. cell\<lparr>walls := (walls cell)\<lparr>bottom_wall := False\<rparr>\<rparr>))
      else if fst next > fst current then
        (case update_cell cs current (\<lambda>cell. cell\<lparr>walls := (walls cell)\<lparr>bottom_wall := False\<rparr>\<rparr>) of
           Inl e \<Rightarrow> Inl e
         | Inr cs' \<Rightarrow> update_cell cs' next (\<lambda>cell. cell\<lparr>walls := (walls cell)\<lparr>top_wall := False\<rparr>\<rparr>))
      else if snd next < snd current then
        (case update_cell cs current (\<lambda>cell. cell\<lparr>walls := (walls cell)\<lparr>left_wall := False\<rparr>\<rparr>) of
           Inl e \<Rightarrow> Inl e
         | Inr cs' \<Rightarrow> update_cell cs' next (\<lambda>cell. cell\<lparr>walls := (walls cell)\<lparr>right_wall := False\<rparr>\<rparr>))
      else if snd next > snd current then
        (case update_cell cs current (\<lambda>cell. cell\<lparr>walls := (walls cell)\<lparr>right_wall := False\<rparr>\<rparr>) of
           Inl e \<Rightarrow> Inl e
         | Inr cs' \<Rightarrow> update_cell cs' next (\<lambda>cell. cell\<lparr>walls := (walls cell)\<lparr>left_wall := False\<rparr>\<rparr>))
      else Inr cs)"

text \<open>How many cells the carving has not visited yet.\<close>

definition unvisited_count :: "MazeCell list list \<Rightarrow> nat" where
  "unvisited_count cs = count_cells (\<lambda>cell. \<not> visited cell) cs"

text \<open>The \<^verbatim>\<open>while (stack.length > 0)\<close> of the carving; \<open>i\<close> counts the numbers drawn so far.\<close>

lemma random_element_member:
  assumes "random_element x xs = Inr y"
  shows "y \<in> set xs"
proof -
  let ?k = "\<lfloor>x * real (length xs)\<rfloor>"
  from assms have k: "0 \<le> ?k" "?k < int (length xs)" and y: "y = xs ! nat ?k"
    by (auto simp: random_element_def Let_def split: if_splits)
  from k have "nat ?k < length xs" by (simp add: nat_less_iff)
  with y show ?thesis by simp
qed

lemma random_element_tagged:
  "map_sum id (\<lambda>n. (n, j)) (random_element x xs) = Inr (y, i') \<Longrightarrow> y \<in> set xs"
  by (cases "random_element x xs") (auto dest: random_element_member)

lemma getRandomNeighbor_member:
  assumes "getRandomNeighbor width height difficulty rng i neighbors = Inr (next, i')"
  shows "next \<in> set neighbors"
proof (cases difficulty)
  case Easy
  with assms show ?thesis
    unfolding getRandomNeighbor_def Let_def
    by (auto split: if_splits dest!: random_element_tagged)
next
  case Normal
  with assms show ?thesis
    unfolding getRandomNeighbor_def
    by (auto dest!: random_element_tagged)
next
  case Hard
  with assms show ?thesis
    unfolding getRandomNeighbor_def Let_def
    by (auto split: if_splits dest!: random_element_tagged)
qed

lemma unvisited_neighbors_unvisited:
  "unvisited_neighbors width height cs current dirs acc = Inr neighbors \<Longrightarrow>
   \<forall>n \<in> set acc. \<exists>cell. cell_at cs n = Inr cell \<and> \<not> visited cell \<Longrightarrow>
   \<forall>n \<in> set neighbors. \<exists>cell. cell_at cs n = Inr cell \<and> \<not> visited cell"
proof (induction dirs arbitrary: acc)
  case Nil
  then show ?case by simp
next
  case (Cons dir dirs)
  let ?next = "step_to current dir"
  show ?case
  proof (cases "fst ?next \<ge> 0 \<and> fst ?next < height \<and> snd ?next \<ge> 0 \<and> snd ?next < width")
    case False
    with Cons.prems(1) have "unvisited_neighbors width height cs current dirs acc = Inr neighbors"
      by (simp add: Let_def)
    from Cons.IH [OF this Cons.prems(2)] show ?thesis .
  next
    case True
    with Cons.prems(1) obtain cell where cell: "cell_at cs ?next = Inr cell"
      by (auto simp: Let_def split: sum.splits)
    show ?thesis
    proof (cases "visited cell")
      case v: True
      with True cell Cons.prems(1)
      have "unvisited_neighbors width height cs current dirs acc = Inr neighbors"
        by (simp add: Let_def)
      from Cons.IH [OF this Cons.prems(2)] show ?thesis .
    next
      case v: False
      with True cell Cons.prems(1)
      have run: "unvisited_neighbors width height cs current dirs (acc @ [?next]) = Inr neighbors"
        by (simp add: Let_def)
      have "\<forall>n \<in> set (acc @ [?next]). \<exists>cell. cell_at cs n = Inr cell \<and> \<not> visited cell"
        using Cons.prems(2) cell v by auto
      from Cons.IH [OF run this] show ?thesis .
    qed
  qed
qed

lemma filter_update_same:
  "i < length xs \<Longrightarrow> P v = P (xs ! i) \<Longrightarrow> length (filter P (xs[i := v])) = length (filter P xs)"
proof (induction xs arbitrary: i)
  case Nil
  then show ?case by simp
next
  case (Cons x xs)
  then show ?case by (cases i) auto
qed

lemma sum_list_update_same:
  "i < length xs \<Longrightarrow> f y = f (xs ! i) \<Longrightarrow> sum_list (map f (xs[i := y])) = (sum_list (map f xs) :: nat)"
proof (induction xs arbitrary: i)
  case Nil
  then show ?case by simp
next
  case (Cons x xs)
  then show ?case by (cases i) auto
qed

lemma count_cells_set_cell_same:
  assumes "set_cell m p v = Inr m'" "cell_at m p = Inr old" "P v = P old"
  shows "count_cells P m' = count_cells P m"
proof -
  from assms(1) have rng: "in_range m p"
    and m': "m' = m[nat (fst p) := (m ! nat (fst p))[nat (snd p) := v]]"
    by (auto simp: set_cell_def split: if_splits)
  from assms(2) rng have old: "old = m ! nat (fst p) ! nat (snd p)"
    by (simp add: cell_at_def)
  note ij = in_range_nat [OF rng]
  have "length (filter P ((m ! nat (fst p))[nat (snd p) := v])) = length (filter P (m ! nat (fst p)))"
    using filter_update_same [of "nat (snd p)" "m ! nat (fst p)" P v] ij assms(3) old by simp
  then show ?thesis
    unfolding count_cells_def m' using ij by (intro sum_list_update_same) simp_all
qed

lemma update_cell_keeps_visited:
  assumes "update_cell cs p f = Inr cs'" "\<And>cell. visited (f cell) = visited cell"
  shows "unvisited_count cs' = unvisited_count cs"
    and "cell_at cs q = Inr cell \<Longrightarrow> \<exists>cell'. cell_at cs' q = Inr cell' \<and> visited cell' = visited cell"
proof -
  obtain old where old: "cell_at cs p = Inr old" and upd: "set_cell cs p (f old) = Inr cs'"
  proof (cases "cell_at cs p")
    case (Inl e)
    with assms(1) show ?thesis by (simp add: update_cell_def)
  next
    case (Inr old)
    with assms(1) that show ?thesis by (simp add: update_cell_def)
  qed
  show "\<exists>cell'. cell_at cs' q = Inr cell' \<and> visited cell' = visited cell" if q: "cell_at cs q = Inr cell"
  proof (cases "q = p")
    case True
    with q old have "cell = old" by simp
    moreover from True have "cell_at cs' q = Inr (f old)" by (simp add: cell_at_set_cell [OF upd])
    ultimately show ?thesis using assms(2) [of old] by simp
  next
    case False
    then have "cell_at cs' q = cell_at cs q" by (simp add: cell_at_set_cell [OF upd])
    with q show ?thesis by simp
  qed
  have "(\<not> visited (f old)) = (\<not> visited old)" using assms(2) [of old] by simp
  from count_cells_set_cell_same [OF upd old, of "\<lambda>cell. \<not> visited cell", OF this]
  show "unvisited_count cs' = unvisited_count cs"
    by (simp add: unvisited_count_def)
qed

lemma update_cell_twice_keeps_visited:
  assumes "(case update_cell cs current f of Inl e \<Rightarrow> Inl e | Inr mid \<Rightarrow> update_cell mid nxt h) = Inr cs'"
    and f: "\<And>cell. visited (f cell) = visited cell" and h: "\<And>cell. visited (h cell) = visited cell"
  shows "unvisited_count cs' = unvisited_count cs"
    and "cell_at cs q = Inr cell \<Longrightarrow> \<exists>cell'. cell_at cs' q = Inr cell' \<and> visited cell' = visited cell"
proof -
  obtain mid where a: "update_cell cs current f = Inr mid" and b: "update_cell mid nxt h = Inr cs'"
  proof (cases "update_cell cs current f")
    case (Inl e)
    with assms(1) show ?thesis by simp
  next
    case (Inr mid)
    with assms(1) that show ?thesis by simp
  qed
  show "unvisited_count cs' = unvisited_count cs"
    using update_cell_keeps_visited(1) [OF a f] update_cell_keeps_visited(1) [OF b h] by simp
  show "\<exists>cell'. cell_at cs' q = Inr cell' \<and> visited cell' = visited cell" if q: "cell_at cs q = Inr cell"
  proof -
    from update_cell_keeps_visited(2) [OF a f q]
    obtain c1 where c1: "cell_at mid q = Inr c1" "visited c1 = visited cell" by blast
    from update_cell_keeps_visited(2) [OF b h c1(1)] c1(2) show ?thesis by auto
  qed
qed

lemma remove_walls_keeps_visited:
  assumes "remove_walls cs current nxt = Inr cs'"
  shows "unvisited_count cs' = unvisited_count cs"
    and "cell_at cs q = Inr cell \<Longrightarrow> \<exists>cell'. cell_at cs' q = Inr cell' \<and> visited cell' = visited cell"
proof -
  have both: "unvisited_count cs' = unvisited_count cs \<and>
      (cell_at cs q = Inr cell \<longrightarrow> (\<exists>cell'. cell_at cs' q = Inr cell' \<and> visited cell' = visited cell))"
  proof (cases "fst nxt < fst current")
    case True
    with assms show ?thesis
      unfolding remove_walls_def
      using update_cell_twice_keeps_visited(1) [where cs = cs and cs' = cs']
          update_cell_twice_keeps_visited(2) [where cs = cs and cs' = cs' and q = q and cell = cell]
        by simp
  next
    case c1: False
    show ?thesis
    proof (cases "fst nxt > fst current")
      case True
      with assms c1 show ?thesis
        unfolding remove_walls_def
        using update_cell_twice_keeps_visited(1) [where cs = cs and cs' = cs']
          update_cell_twice_keeps_visited(2) [where cs = cs and cs' = cs' and q = q and cell = cell]
        by simp
    next
      case c2: False
      show ?thesis
      proof (cases "snd nxt < snd current")
        case True
        with assms c1 c2 show ?thesis
          unfolding remove_walls_def
          using update_cell_twice_keeps_visited(1) [where cs = cs and cs' = cs']
          update_cell_twice_keeps_visited(2) [where cs = cs and cs' = cs' and q = q and cell = cell]
        by simp
      next
        case c3: False
        show ?thesis
        proof (cases "snd nxt > snd current")
          case True
          with assms c1 c2 c3 show ?thesis
            unfolding remove_walls_def
            using update_cell_twice_keeps_visited(1) [where cs = cs and cs' = cs']
          update_cell_twice_keeps_visited(2) [where cs = cs and cs' = cs' and q = q and cell = cell]
        by simp
        next
          case False
          with assms c1 c2 c3 show ?thesis
            unfolding remove_walls_def by simp
        qed
      qed
    qed
  qed
  from both show "unvisited_count cs' = unvisited_count cs" by simp
  from both show "cell_at cs q = Inr cell \<Longrightarrow> \<exists>cell'. cell_at cs' q = Inr cell' \<and> visited cell' = visited cell"
    by simp
qed

function carve ::
  "int \<Rightarrow> int \<Rightarrow> Difficulty \<Rightarrow> (nat \<Rightarrow> real) \<Rightarrow> nat \<Rightarrow> MazeCell list list \<Rightarrow> Pos list
     \<Rightarrow> error + (MazeCell list list \<times> nat)" where
  "carve width height difficulty rng i cs stack =
     (if length stack > 0 then
        (case unvisited_neighbors width height cs (last stack) directions [] of
           Inl e \<Rightarrow> Inl e
         | Inr neighbors \<Rightarrow>
             if length neighbors > 0 then
               (case getRandomNeighbor width height difficulty rng i neighbors of
                  Inl e \<Rightarrow> Inl e
                | Inr (nxt, i') \<Rightarrow>
                    (case remove_walls cs (last stack) nxt of
                       Inl e \<Rightarrow> Inl e
                     | Inr cs1 \<Rightarrow>
                         (case update_cell cs1 nxt (\<lambda>cell. cell\<lparr>visited := True\<rparr>) of
                            Inl e \<Rightarrow> Inl e
                          | Inr cs2 \<Rightarrow> carve width height difficulty rng i' cs2 (stack @ [nxt]))))
             else carve width height difficulty rng i cs (butlast stack))
      else Inr (cs, i))"
  by pat_completeness auto

termination carve
proof (relation "measure (\<lambda>(width, height, difficulty, rng, i, cs, stack).
          2 * unvisited_count cs + length stack)", goal_cases)
  case 1
  show ?case by simp
next
  case (2 width height difficulty rng i cs stack neighbors picked nxt i' cs1 cs2)
  from 2 have nb: "unvisited_neighbors width height cs (last stack) directions [] = Inr neighbors"
    and pick: "getRandomNeighbor width height difficulty rng i neighbors = Inr (nxt, i')"
    and rw: "remove_walls cs (last stack) nxt = Inr cs1"
    and mark: "update_cell cs1 nxt (\<lambda>cell. cell\<lparr>visited := True\<rparr>) = Inr cs2"
    by simp_all
  from unvisited_neighbors_unvisited [OF nb] getRandomNeighbor_member [OF pick]
  obtain cell where cell: "cell_at cs nxt = Inr cell" "\<not> visited cell" by auto
  from remove_walls_keeps_visited(2) [OF rw cell(1)] cell(2)
  obtain cell1 where cell1: "cell_at cs1 nxt = Inr cell1" "\<not> visited cell1" by auto
  from mark cell1 have upd: "set_cell cs1 nxt (cell1\<lparr>visited := True\<rparr>) = Inr cs2"
    by (simp add: update_cell_def)
  have "Suc (unvisited_count cs2) = unvisited_count cs1"
    unfolding unvisited_count_def
    using count_cells_set_cell [OF upd cell1(1), of "\<lambda>cell. \<not> visited cell"] cell1(2) by simp
  with remove_walls_keeps_visited(1) [OF rw] show ?case by simp
next
  case (3 width height difficulty rng i cs stack neighbors)
  then show ?case by (cases stack rule: rev_cases) simp_all
qed

declare carve.simps [simp del]


text \<open>\<^verbatim>\<open>Array.from\<close> over a callback that reads an array: the first failing read ends it.\<close>

fun collect :: "('a \<Rightarrow> error + 'b) \<Rightarrow> 'a list \<Rightarrow> error + 'b list" where
  "collect f [] = Inr []"
| "collect f (x # xs) =
     (case f x of
        Inl e \<Rightarrow> Inl e
      | Inr y \<Rightarrow> (case collect f xs of Inl e \<Rightarrow> Inl e | Inr ys \<Rightarrow> Inr (y # ys)))"

text \<open>"Convert cells to binary grid": \<^verbatim>\<open>cells[r][c].visited ? 0 : 1\<close>.\<close>

definition binary_grid :: "int \<Rightarrow> int \<Rightarrow> MazeCell list list \<Rightarrow> error + int list list" where
  "binary_grid width height cs =
     collect (\<lambda>r. collect (\<lambda>c. case cell_at cs (r, c) of
                                   Inl e \<Rightarrow> Inl e
                                 | Inr cell \<Rightarrow> Inr (if visited cell then 0 else 1))
                         [0..width - 1])
             [0..height - 1]"

text \<open>\<^verbatim>\<open>getRandomStartPosition\<close>: the visited cells in row-major order, then the choice.\<close>

definition validCells :: "int \<Rightarrow> int \<Rightarrow> MazeCell list list \<Rightarrow> error + Pos list" where
  "validCells width height cs =
     (case collect (\<lambda>p. case cell_at cs p of Inl e \<Rightarrow> Inl e | Inr cell \<Rightarrow> Inr (p, visited cell))
             (concat (map (\<lambda>r. map (\<lambda>c. (r, c)) [0..width - 1]) [0..height - 1])) of
        Inl e \<Rightarrow> Inl e
      | Inr tagged \<Rightarrow> Inr (map fst (filter snd tagged)))"

definition getRandomStartPosition ::
  "int \<Rightarrow> int \<Rightarrow> Difficulty \<Rightarrow> (nat \<Rightarrow> real) \<Rightarrow> nat \<Rightarrow> MazeCell list list \<Rightarrow> error + Pos" where
  "getRandomStartPosition width height difficulty rng i cs =
     (case validCells width height cs of
        Inl e \<Rightarrow> Inl e
      | Inr valid \<Rightarrow>
          (case difficulty of
             Easy \<Rightarrow>
               (let topHalfCells = filter (\<lambda>pos. real_of_int (fst pos) < real_of_int height / 2) valid in
                if topHalfCells \<noteq> [] then random_element (rng i) topHalfCells
                else random_element (rng i) valid)
           | Hard \<Rightarrow>
               (let bottomHalfCells = filter (\<lambda>pos. real_of_int (fst pos) \<ge> real_of_int height / 2) valid in
                if bottomHalfCells \<noteq> [] then random_element (rng i) bottomHalfCells
                else random_element (rng i) valid)
           | Normal \<Rightarrow> random_element (rng i) valid))"

text \<open>\<^verbatim>\<open>generateMaze(width, height, difficulty)\<close>; \<open>rng\<close> is the sequence of the numbers
  that \<^verbatim>\<open>Math.random()\<close> returns, in the order of the calls.\<close>

definition generateMaze :: "int \<Rightarrow> int \<Rightarrow> Difficulty \<Rightarrow> (nat \<Rightarrow> real) \<Rightarrow> error + Level" where
  "generateMaze width height difficulty rng =
     (let seed = (case difficulty of Easy \<Rightarrow> (1, 1) | _ \<Rightarrow> (height div 2, width div 2)) in
      case update_cell
             (filled height width
                \<lparr>walls = \<lparr>top_wall = True, right_wall = True, bottom_wall = True, left_wall = True\<rparr>,
                 visited = False\<rparr>)
             seed (\<lambda>cell. cell\<lparr>visited := True\<rparr>) of
        Inl e \<Rightarrow> Inl e
      | Inr cs0 \<Rightarrow>
          (case carve width height difficulty rng 0 cs0 [seed] of
             Inl e \<Rightarrow> Inl e
           | Inr (cs1, i) \<Rightarrow>
               (case update_cell cs1 (0, 1) (\<lambda>cell. cell\<lparr>walls := (walls cell)\<lparr>top_wall := False\<rparr>\<rparr>) of
                  Inl e \<Rightarrow> Inl e
                | Inr cs2 \<Rightarrow>
                    (case binary_grid width height cs2 of
                       Inl e \<Rightarrow> Inl e
                     | Inr g \<Rightarrow>
                         (case getRandomStartPosition width height difficulty rng i cs2 of
                            Inl e \<Rightarrow> Inl e
                          | Inr s \<Rightarrow> Inr \<lparr>grid = g, start = s, cells = Some cs2\<rparr>)))))"

subsection \<open>Wall symmetry of the generated cells\<close>

text \<open>The wall flag of a cell on the side that faces direction \<open>d\<close>.\<close>

definition wall_towards :: "MazeCell \<Rightarrow> Pos \<Rightarrow> bool" where
  "wall_towards cell d =
     (if d = (-1, 0) then top_wall (walls cell)
      else if d = (1, 0) then bottom_wall (walls cell)
      else if d = (0, -1) then left_wall (walls cell)
      else right_wall (walls cell))"

text \<open>Wall symmetry: for two 4-adjacent cells of the array, the flag of the first that faces
  the second equals the flag of the second that faces the first.\<close>

definition wall_symmetric :: "MazeCell list list \<Rightarrow> bool" where
  "wall_symmetric cs \<longleftrightarrow>
     (\<forall>a d ca cb. d \<in> set directions \<longrightarrow> cell_at cs a = Inr ca \<longrightarrow> cell_at cs (step_to a d) = Inr cb
        \<longrightarrow> wall_towards ca d = wall_towards cb (- fst d, - snd d))"

text \<open>The same, stated once per pair: a cell and the one below it, a cell and the one to its right.\<close>

definition wall_pairs_agree :: "MazeCell list list \<Rightarrow> bool" where
  "wall_pairs_agree cs \<longleftrightarrow>
     (\<forall>a ca cb. cell_at cs a = Inr ca \<longrightarrow> cell_at cs (fst a + 1, snd a) = Inr cb
        \<longrightarrow> bottom_wall (walls ca) = top_wall (walls cb)) \<and>
     (\<forall>a ca cb. cell_at cs a = Inr ca \<longrightarrow> cell_at cs (fst a, snd a + 1) = Inr cb
        \<longrightarrow> right_wall (walls ca) = left_wall (walls cb))"

lemma wall_pairs_agree_symmetric:
  assumes "wall_pairs_agree cs"
  shows "wall_symmetric cs"
  unfolding wall_symmetric_def
proof (intro allI impI)
  fix a d ca cb
  assume d: "d \<in> set directions" and a: "cell_at cs a = Inr ca" and b: "cell_at cs (step_to a d) = Inr cb"
  from assms have down: "\<And>a ca cb. cell_at cs a = Inr ca \<Longrightarrow> cell_at cs (fst a + 1, snd a) = Inr cb
        \<Longrightarrow> bottom_wall (walls ca) = top_wall (walls cb)"
    and right: "\<And>a ca cb. cell_at cs a = Inr ca \<Longrightarrow> cell_at cs (fst a, snd a + 1) = Inr cb
        \<Longrightarrow> right_wall (walls ca) = left_wall (walls cb)"
    unfolding wall_pairs_agree_def by blast+
  from d consider "d = (-1, 0)" | "d = (1, 0)" | "d = (0, -1)" | "d = (0, 1)"
    by (auto simp: directions_def)
  then show "wall_towards ca d = wall_towards cb (- fst d, - snd d)"
  proof cases
    case 1
    with b have b': "cell_at cs (fst a - 1, snd a) = Inr cb" by (simp add: step_to_def)
    from down [OF b', of ca] a have "bottom_wall (walls cb) = top_wall (walls ca)" by simp
    with 1 show ?thesis by (simp add: wall_towards_def)
  next
    case 2
    with b have b': "cell_at cs (fst a + 1, snd a) = Inr cb" by (simp add: step_to_def)
    from down [OF a b'] 2 show ?thesis by (simp add: wall_towards_def)
  next
    case 3
    with b have b': "cell_at cs (fst a, snd a - 1) = Inr cb" by (simp add: step_to_def)
    from right [OF b', of ca] a have "right_wall (walls cb) = left_wall (walls ca)" by simp
    with 3 show ?thesis by (simp add: wall_towards_def)
  next
    case 4
    with b have b': "cell_at cs (fst a, snd a + 1) = Inr cb" by (simp add: step_to_def)
    from right [OF a b'] 4 show ?thesis by (simp add: wall_towards_def)
  qed
qed

lemma update_cell_at:
  assumes "update_cell cs p f = Inr cs'"
  shows "\<exists>old. cell_at cs p = Inr old \<and> (\<forall>q. cell_at cs' q = (if q = p then Inr (f old) else cell_at cs q))"
proof (cases "cell_at cs p")
  case (Inl e)
  with assms show ?thesis by (simp add: update_cell_def)
next
  case (Inr old)
  with assms have upd: "set_cell cs p (f old) = Inr cs'" by (simp add: update_cell_def)
  from Inr cell_at_set_cell [OF upd] show ?thesis by blast
qed

lemma update_cell_twice_at:
  assumes "(case update_cell cs p f of Inl e \<Rightarrow> Inl e | Inr mid \<Rightarrow> update_cell mid q g) = Inr cs'"
    and "p \<noteq> q"
  shows "\<exists>cp cq. cell_at cs p = Inr cp \<and> cell_at cs q = Inr cq \<and>
    (\<forall>x. cell_at cs' x = (if x = p then Inr (f cp) else if x = q then Inr (g cq) else cell_at cs x))"
proof -
  obtain mid where a: "update_cell cs p f = Inr mid" and b: "update_cell mid q g = Inr cs'"
  proof (cases "update_cell cs p f")
    case (Inl e)
    with assms(1) show ?thesis by simp
  next
    case (Inr mid)
    with assms(1) that show ?thesis by simp
  qed
  from update_cell_at [OF a] obtain cp where cp: "cell_at cs p = Inr cp"
    and mid: "\<And>x. cell_at mid x = (if x = p then Inr (f cp) else cell_at cs x)"
    by blast
  from update_cell_at [OF b] obtain cq where cq: "cell_at mid q = Inr cq"
    and fin: "\<And>x. cell_at cs' x = (if x = q then Inr (g cq) else cell_at mid x)"
    by blast
  from cq assms(2) have cq0: "cell_at cs q = Inr cq" by (simp add: mid)
  have "cell_at cs' x = (if x = p then Inr (f cp) else if x = q then Inr (g cq) else cell_at cs x)" for x
    using assms(2) by (simp add: fin mid)
  with cp cq0 show ?thesis by blast
qed

text \<open>Opening the pair of walls between a cell and the one below it, or between a cell and the
  one to its right, keeps the flags of every pair equal.\<close>

lemma open_vertical_pair:
  assumes agree: "wall_pairs_agree cs"
    and up: "cell_at cs up = Inr cu" and lo: "cell_at cs (fst up + 1, snd up) = Inr cl"
    and new: "\<And>x. cell_at cs' x =
        (if x = up then Inr (cu\<lparr>walls := (walls cu)\<lparr>bottom_wall := False\<rparr>\<rparr>)
         else if x = (fst up + 1, snd up) then Inr (cl\<lparr>walls := (walls cl)\<lparr>top_wall := False\<rparr>\<rparr>)
         else cell_at cs x)"
  shows "wall_pairs_agree cs'"
  unfolding wall_pairs_agree_def
proof (intro conjI allI impI)
  fix a ca cb
  assume a: "cell_at cs' a = Inr ca" and b: "cell_at cs' (fst a + 1, snd a) = Inr cb"
  from agree have down: "\<And>a ca cb. cell_at cs a = Inr ca \<Longrightarrow> cell_at cs (fst a + 1, snd a) = Inr cb
        \<Longrightarrow> bottom_wall (walls ca) = top_wall (walls cb)"
    unfolding wall_pairs_agree_def by blast
  show "bottom_wall (walls ca) = top_wall (walls cb)"
  proof (cases "a = up")
    case True
    with a b show ?thesis by (auto simp: new prod_eq_iff split: if_splits)
  next
    case False
    then have ne: "(fst a + 1, snd a) \<noteq> (fst up + 1, snd up)" by (auto simp: prod_eq_iff)
    have ne2: "(fst a + 1, snd a) \<noteq> up \<or> a = (fst up - 1, snd up)" by (auto simp: prod_eq_iff)
    show ?thesis
    proof (cases "a = (fst up + 1, snd up)")
      case True
      with a have ca: "ca = cl\<lparr>walls := (walls cl)\<lparr>top_wall := False\<rparr>\<rparr>" using False by (simp add: new)
      from True have "(fst a + 1, snd a) \<noteq> up" by (auto simp: prod_eq_iff)
      with b ne have b0: "cell_at cs (fst a + 1, snd a) = Inr cb" by (auto simp: new split: if_splits)
      from down [OF _ b0, of cl] lo True ca show ?thesis by simp
    next
      case a_other: False
      with a False have a0: "cell_at cs a = Inr ca" by (simp add: new)
      show ?thesis
      proof (cases "(fst a + 1, snd a) = up")
        case True
        with b have cb: "cb = cu\<lparr>walls := (walls cu)\<lparr>bottom_wall := False\<rparr>\<rparr>" by (simp add: new)
        from down [OF a0, of cu] up True cb show ?thesis by simp
      next
        case False
        with b ne have b0: "cell_at cs (fst a + 1, snd a) = Inr cb" by (auto simp: new split: if_splits)
        from down [OF a0 b0] show ?thesis .
      qed
    qed
  qed
next
  fix a ca cb
  assume a: "cell_at cs' a = Inr ca" and b: "cell_at cs' (fst a, snd a + 1) = Inr cb"
  from agree have right: "\<And>a ca cb. cell_at cs a = Inr ca \<Longrightarrow> cell_at cs (fst a, snd a + 1) = Inr cb
        \<Longrightarrow> right_wall (walls ca) = left_wall (walls cb)"
    unfolding wall_pairs_agree_def by blast
  from a obtain ca0 where a0: "cell_at cs a = Inr ca0" "right_wall (walls ca0) = right_wall (walls ca)"
    using up lo by (auto simp: new split: if_splits)
  from b obtain cb0 where b0: "cell_at cs (fst a, snd a + 1) = Inr cb0" "left_wall (walls cb0) = left_wall (walls cb)"
    using up lo by (auto simp: new split: if_splits)
  from right [OF a0(1) b0(1)] a0(2) b0(2) show "right_wall (walls ca) = left_wall (walls cb)" by simp
qed

lemma open_horizontal_pair:
  assumes agree: "wall_pairs_agree cs"
    and le: "cell_at cs le = Inr cl" and ri: "cell_at cs (fst le, snd le + 1) = Inr cr"
    and new: "\<And>x. cell_at cs' x =
        (if x = le then Inr (cl\<lparr>walls := (walls cl)\<lparr>right_wall := False\<rparr>\<rparr>)
         else if x = (fst le, snd le + 1) then Inr (cr\<lparr>walls := (walls cr)\<lparr>left_wall := False\<rparr>\<rparr>)
         else cell_at cs x)"
  shows "wall_pairs_agree cs'"
  unfolding wall_pairs_agree_def
proof (intro conjI allI impI)
  fix a ca cb
  assume a: "cell_at cs' a = Inr ca" and b: "cell_at cs' (fst a, snd a + 1) = Inr cb"
  from agree have right: "\<And>a ca cb. cell_at cs a = Inr ca \<Longrightarrow> cell_at cs (fst a, snd a + 1) = Inr cb
        \<Longrightarrow> right_wall (walls ca) = left_wall (walls cb)"
    unfolding wall_pairs_agree_def by blast
  show "right_wall (walls ca) = left_wall (walls cb)"
  proof (cases "a = le")
    case True
    with a b show ?thesis by (auto simp: new prod_eq_iff split: if_splits)
  next
    case False
    then have ne: "(fst a, snd a + 1) \<noteq> (fst le, snd le + 1)" by (auto simp: prod_eq_iff)
    show ?thesis
    proof (cases "a = (fst le, snd le + 1)")
      case True
      with a have ca: "ca = cr\<lparr>walls := (walls cr)\<lparr>left_wall := False\<rparr>\<rparr>" using False by (simp add: new)
      from True have "(fst a, snd a + 1) \<noteq> le" by (auto simp: prod_eq_iff)
      with b ne have b0: "cell_at cs (fst a, snd a + 1) = Inr cb" by (auto simp: new split: if_splits)
      from right [OF _ b0, of cr] ri True ca show ?thesis by simp
    next
      case a_other: False
      with a False have a0: "cell_at cs a = Inr ca" by (simp add: new)
      show ?thesis
      proof (cases "(fst a, snd a + 1) = le")
        case True
        with b have cb: "cb = cl\<lparr>walls := (walls cl)\<lparr>right_wall := False\<rparr>\<rparr>" by (simp add: new)
        from right [OF a0, of cl] le True cb show ?thesis by simp
      next
        case False
        with b ne have b0: "cell_at cs (fst a, snd a + 1) = Inr cb" by (auto simp: new split: if_splits)
        from right [OF a0 b0] show ?thesis .
      qed
    qed
  qed
next
  fix a ca cb
  assume a: "cell_at cs' a = Inr ca" and b: "cell_at cs' (fst a + 1, snd a) = Inr cb"
  from agree have down: "\<And>a ca cb. cell_at cs a = Inr ca \<Longrightarrow> cell_at cs (fst a + 1, snd a) = Inr cb
        \<Longrightarrow> bottom_wall (walls ca) = top_wall (walls cb)"
    unfolding wall_pairs_agree_def by blast
  from a obtain ca0 where a0: "cell_at cs a = Inr ca0" "bottom_wall (walls ca0) = bottom_wall (walls ca)"
    using le ri by (auto simp: new split: if_splits)
  from b obtain cb0 where b0: "cell_at cs (fst a + 1, snd a) = Inr cb0" "top_wall (walls cb0) = top_wall (walls cb)"
    using le ri by (auto simp: new split: if_splits)
  from down [OF a0(1) b0(1)] a0(2) b0(2) show "bottom_wall (walls ca) = top_wall (walls cb)" by simp
qed


lemma remove_walls_agree:
  assumes agree: "wall_pairs_agree cs"
    and d: "d \<in> set directions"
    and run: "remove_walls cs current (step_to current d) = Inr cs'"
  shows "wall_pairs_agree cs'"
proof -
  let ?n = "step_to current d"
  from d consider "d = (-1, 0)" | "d = (1, 0)" | "d = (0, -1)" | "d = (0, 1)"
    by (auto simp: directions_def)
  then show ?thesis
  proof cases
    case 1
    then have n: "?n = (fst current - 1, snd current)" by (simp add: step_to_def)
    then have ne: "current \<noteq> ?n" by (simp add: prod_eq_iff)
    from run have "(case update_cell cs current (\<lambda>cell. cell\<lparr>walls := (walls cell)\<lparr>top_wall := False\<rparr>\<rparr>) of
        Inl e \<Rightarrow> Inl e
      | Inr mid \<Rightarrow> update_cell mid ?n (\<lambda>cell. cell\<lparr>walls := (walls cell)\<lparr>bottom_wall := False\<rparr>\<rparr>)) = Inr cs'"
      unfolding remove_walls_def n by simp
    from update_cell_twice_at [OF this ne] obtain cc cn where
      cc: "cell_at cs current = Inr cc" and cn: "cell_at cs ?n = Inr cn"
      and new: "\<And>x. cell_at cs' x =
         (if x = current then Inr (cc\<lparr>walls := (walls cc)\<lparr>top_wall := False\<rparr>\<rparr>)
          else if x = ?n then Inr (cn\<lparr>walls := (walls cn)\<lparr>bottom_wall := False\<rparr>\<rparr>)
          else cell_at cs x)"
      by blast
    show ?thesis
    proof (rule open_vertical_pair [OF agree cn])
      show "cell_at cs (fst ?n + 1, snd ?n) = Inr cc" using cc n by simp
      show "cell_at cs' x =
        (if x = ?n then Inr (cn\<lparr>walls := (walls cn)\<lparr>bottom_wall := False\<rparr>\<rparr>)
         else if x = (fst ?n + 1, snd ?n) then Inr (cc\<lparr>walls := (walls cc)\<lparr>top_wall := False\<rparr>\<rparr>)
         else cell_at cs x)" for x
        using ne n by (auto simp: new)
    qed
  next
    case 2
    then have n: "?n = (fst current + 1, snd current)" by (simp add: step_to_def)
    then have ne: "current \<noteq> ?n" by (simp add: prod_eq_iff)
    from run have "(case update_cell cs current (\<lambda>cell. cell\<lparr>walls := (walls cell)\<lparr>bottom_wall := False\<rparr>\<rparr>) of
        Inl e \<Rightarrow> Inl e
      | Inr mid \<Rightarrow> update_cell mid ?n (\<lambda>cell. cell\<lparr>walls := (walls cell)\<lparr>top_wall := False\<rparr>\<rparr>)) = Inr cs'"
      unfolding remove_walls_def n by simp
    from update_cell_twice_at [OF this ne] obtain cc cn where
      cc: "cell_at cs current = Inr cc" and cn: "cell_at cs ?n = Inr cn"
      and new: "\<And>x. cell_at cs' x =
         (if x = current then Inr (cc\<lparr>walls := (walls cc)\<lparr>bottom_wall := False\<rparr>\<rparr>)
          else if x = ?n then Inr (cn\<lparr>walls := (walls cn)\<lparr>top_wall := False\<rparr>\<rparr>)
          else cell_at cs x)"
      by blast
    show ?thesis
    proof (rule open_vertical_pair [OF agree cc])
      show "cell_at cs (fst current + 1, snd current) = Inr cn" using cn n by simp
      show "cell_at cs' x =
        (if x = current then Inr (cc\<lparr>walls := (walls cc)\<lparr>bottom_wall := False\<rparr>\<rparr>)
         else if x = (fst current + 1, snd current) then Inr (cn\<lparr>walls := (walls cn)\<lparr>top_wall := False\<rparr>\<rparr>)
         else cell_at cs x)" for x
        using n by (simp add: new)
    qed
  next
    case 3
    then have n: "?n = (fst current, snd current - 1)" by (simp add: step_to_def)
    then have ne: "current \<noteq> ?n" by (simp add: prod_eq_iff)
    from run have "(case update_cell cs current (\<lambda>cell. cell\<lparr>walls := (walls cell)\<lparr>left_wall := False\<rparr>\<rparr>) of
        Inl e \<Rightarrow> Inl e
      | Inr mid \<Rightarrow> update_cell mid ?n (\<lambda>cell. cell\<lparr>walls := (walls cell)\<lparr>right_wall := False\<rparr>\<rparr>)) = Inr cs'"
      unfolding remove_walls_def n by simp
    from update_cell_twice_at [OF this ne] obtain cc cn where
      cc: "cell_at cs current = Inr cc" and cn: "cell_at cs ?n = Inr cn"
      and new: "\<And>x. cell_at cs' x =
         (if x = current then Inr (cc\<lparr>walls := (walls cc)\<lparr>left_wall := False\<rparr>\<rparr>)
          else if x = ?n then Inr (cn\<lparr>walls := (walls cn)\<lparr>right_wall := False\<rparr>\<rparr>)
          else cell_at cs x)"
      by blast
    show ?thesis
    proof (rule open_horizontal_pair [OF agree cn])
      show "cell_at cs (fst ?n, snd ?n + 1) = Inr cc" using cc n by simp
      show "cell_at cs' x =
        (if x = ?n then Inr (cn\<lparr>walls := (walls cn)\<lparr>right_wall := False\<rparr>\<rparr>)
         else if x = (fst ?n, snd ?n + 1) then Inr (cc\<lparr>walls := (walls cc)\<lparr>left_wall := False\<rparr>\<rparr>)
         else cell_at cs x)" for x
        using ne n by (auto simp: new)
    qed
  next
    case 4
    then have n: "?n = (fst current, snd current + 1)" by (simp add: step_to_def)
    then have ne: "current \<noteq> ?n" by (simp add: prod_eq_iff)
    from run have "(case update_cell cs current (\<lambda>cell. cell\<lparr>walls := (walls cell)\<lparr>right_wall := False\<rparr>\<rparr>) of
        Inl e \<Rightarrow> Inl e
      | Inr mid \<Rightarrow> update_cell mid ?n (\<lambda>cell. cell\<lparr>walls := (walls cell)\<lparr>left_wall := False\<rparr>\<rparr>)) = Inr cs'"
      unfolding remove_walls_def n by simp
    from update_cell_twice_at [OF this ne] obtain cc cn where
      cc: "cell_at cs current = Inr cc" and cn: "cell_at cs ?n = Inr cn"
      and new: "\<And>x. cell_at cs' x =
         (if x = current then Inr (cc\<lparr>walls := (walls cc)\<lparr>right_wall := False\<rparr>\<rparr>)
          else if x = ?n then Inr (cn\<lparr>walls := (walls cn)\<lparr>left_wall := False\<rparr>\<rparr>)
          else cell_at cs x)"
      by blast
    show ?thesis
    proof (rule open_horizontal_pair [OF agree cc])
      show "cell_at cs (fst current, snd current + 1) = Inr cn" using cn n by simp
      show "cell_at cs' x =
        (if x = current then Inr (cc\<lparr>walls := (walls cc)\<lparr>right_wall := False\<rparr>\<rparr>)
         else if x = (fst current, snd current + 1) then Inr (cn\<lparr>walls := (walls cn)\<lparr>left_wall := False\<rparr>\<rparr>)
         else cell_at cs x)" for x
        using n by (simp add: new)
    qed
  qed
qed

lemma update_cell_keeps_walls_agree:
  assumes agree: "wall_pairs_agree cs"
    and run: "update_cell cs p f = Inr cs'"
    and f: "\<And>cell. walls (f cell) = walls cell"
  shows "wall_pairs_agree cs'"
proof -
  from update_cell_at [OF run] obtain old where old: "cell_at cs p = Inr old"
    and new: "\<And>q. cell_at cs' q = (if q = p then Inr (f old) else cell_at cs q)" by blast
  have orig: "\<exists>c0. cell_at cs q = Inr c0 \<and> walls c0 = walls c" if "cell_at cs' q = Inr c" for q c
    using that old f by (auto simp: new split: if_splits)
  show ?thesis
    unfolding wall_pairs_agree_def
  proof (intro conjI allI impI)
    fix a ca cb
    assume "cell_at cs' a = Inr ca" "cell_at cs' (fst a + 1, snd a) = Inr cb"
    then obtain ca0 cb0 where "cell_at cs a = Inr ca0" "walls ca0 = walls ca"
      "cell_at cs (fst a + 1, snd a) = Inr cb0" "walls cb0 = walls cb"
      using orig by blast
    with agree show "bottom_wall (walls ca) = top_wall (walls cb)"
      unfolding wall_pairs_agree_def by metis
  next
    fix a ca cb
    assume "cell_at cs' a = Inr ca" "cell_at cs' (fst a, snd a + 1) = Inr cb"
    then obtain ca0 cb0 where "cell_at cs a = Inr ca0" "walls ca0 = walls ca"
      "cell_at cs (fst a, snd a + 1) = Inr cb0" "walls cb0 = walls cb"
      using orig by blast
    with agree show "right_wall (walls ca) = left_wall (walls cb)"
      unfolding wall_pairs_agree_def by metis
  qed
qed

lemma unvisited_neighbors_adjacent:
  "unvisited_neighbors width height cs current dirs acc = Inr neighbors \<Longrightarrow>
   set neighbors \<subseteq> set acc \<union> step_to current ` set dirs"
proof (induction dirs arbitrary: acc)
  case Nil
  then show ?case by simp
next
  case (Cons dir dirs)
  let ?next = "step_to current dir"
  from Cons.prems have
    "unvisited_neighbors width height cs current dirs acc = Inr neighbors
     \<or> unvisited_neighbors width height cs current dirs (acc @ [?next]) = Inr neighbors"
    by (auto simp: Let_def split: if_splits sum.splits)
  then show ?case
  proof
    assume "unvisited_neighbors width height cs current dirs acc = Inr neighbors"
    from Cons.IH [OF this] show ?thesis by auto
  next
    assume "unvisited_neighbors width height cs current dirs (acc @ [?next]) = Inr neighbors"
    from Cons.IH [OF this] show ?thesis by auto
  qed
qed

lemma carve_agree:
  "carve width height difficulty rng i cs stack = Inr (cs', i') \<Longrightarrow> wall_pairs_agree cs
   \<Longrightarrow> wall_pairs_agree cs'"
proof (induction width height difficulty rng i cs stack rule: carve.induct)
  case (1 width height difficulty rng i cs stack)
  note unfold = carve.simps [of width height difficulty rng i cs stack]
  show ?case
  proof (cases "length stack > 0")
    case False
    with "1.prems" show ?thesis by (simp add: unfold)
  next
    case ne: True
    from "1.prems"(1) ne obtain neighbors where
      nb: "unvisited_neighbors width height cs (last stack) directions [] = Inr neighbors"
      by (cases "unvisited_neighbors width height cs (last stack) directions []") (simp_all add: unfold)
    show ?thesis
    proof (cases "length neighbors > 0")
      case False
      with "1.prems"(1) ne nb have "carve width height difficulty rng i cs (butlast stack) = Inr (cs', i')"
        by (simp add: unfold)
      from "1.IH"(2) [OF ne nb False this "1.prems"(2)] show ?thesis .
    next
      case some: True
      from "1.prems"(1) ne nb some obtain nxt j where
        pick: "getRandomNeighbor width height difficulty rng i neighbors = Inr (nxt, j)"
        by (cases "getRandomNeighbor width height difficulty rng i neighbors") (auto simp: unfold)
      from "1.prems"(1) ne nb some pick obtain cs1 where
        rw: "remove_walls cs (last stack) nxt = Inr cs1"
        by (cases "remove_walls cs (last stack) nxt") (simp_all add: unfold)
      from "1.prems"(1) ne nb some pick rw obtain cs2 where
        mark: "update_cell cs1 nxt (\<lambda>cell. cell\<lparr>visited := True\<rparr>) = Inr cs2"
        by (cases "update_cell cs1 nxt (\<lambda>cell. cell\<lparr>visited := True\<rparr>)") (simp_all add: unfold)
      from "1.prems"(1) ne nb some pick rw mark
      have rest: "carve width height difficulty rng j cs2 (stack @ [nxt]) = Inr (cs', i')"
        by (simp add: unfold)
      from getRandomNeighbor_member [OF pick] unvisited_neighbors_adjacent [OF nb]
      obtain d where d: "d \<in> set directions" "nxt = step_to (last stack) d" by auto
      from remove_walls_agree [OF "1.prems"(2) d(1)] rw d(2) have "wall_pairs_agree cs1" by simp
      from update_cell_keeps_walls_agree [OF this mark] have "wall_pairs_agree cs2" by simp
      from "1.IH"(1) [OF ne nb some pick refl rw mark rest this] show ?thesis .
    qed
  qed
qed


lemma cell_at_filled:
  "cell_at (filled rows cols v) p =
     (if 0 \<le> fst p \<and> fst p < rows \<and> 0 \<le> snd p \<and> snd p < cols then Inr v else Inl IndexOutOfRange)"
proof -
  have "in_range (filled rows cols v) p \<longleftrightarrow> 0 \<le> fst p \<and> fst p < rows \<and> 0 \<le> snd p \<and> snd p < cols"
    by (auto simp: in_range_def filled_def split: if_splits)
  moreover have "filled rows cols v ! nat (fst p) ! nat (snd p) = v"
    if "0 \<le> fst p" "fst p < rows" "0 \<le> snd p" "snd p < cols"
    using that by (simp add: filled_def nat_less_iff)
  ultimately show ?thesis by (simp add: cell_at_def)
qed

lemma open_exit_agree:
  assumes agree: "wall_pairs_agree cs"
    and run: "update_cell cs (0, 1) (\<lambda>cell. cell\<lparr>walls := (walls cell)\<lparr>top_wall := False\<rparr>\<rparr>) = Inr cs'"
  shows "wall_pairs_agree cs'"
proof -
  from update_cell_at [OF run] obtain old where old: "cell_at cs (0, 1) = Inr old"
    and new: "\<And>q. cell_at cs' q =
      (if q = (0, 1) then Inr (old\<lparr>walls := (walls old)\<lparr>top_wall := False\<rparr>\<rparr>) else cell_at cs q)"
    by blast
  from agree have down: "\<And>a ca cb. cell_at cs a = Inr ca \<Longrightarrow> cell_at cs (fst a + 1, snd a) = Inr cb
        \<Longrightarrow> bottom_wall (walls ca) = top_wall (walls cb)"
    and right: "\<And>a ca cb. cell_at cs a = Inr ca \<Longrightarrow> cell_at cs (fst a, snd a + 1) = Inr cb
        \<Longrightarrow> right_wall (walls ca) = left_wall (walls cb)"
    unfolding wall_pairs_agree_def by blast+
  show ?thesis
    unfolding wall_pairs_agree_def
  proof (intro conjI allI impI)
    fix a ca cb
    assume a: "cell_at cs' a = Inr ca" and b: "cell_at cs' (fst a + 1, snd a) = Inr cb"
    from a obtain ca0 where a0: "cell_at cs a = Inr ca0" "bottom_wall (walls ca0) = bottom_wall (walls ca)"
      using old by (auto simp: new split: if_splits)
    from cell_at_in_range [OF a0(1)] have "0 \<le> fst a" by (simp add: in_range_def)
    then have "(fst a + 1, snd a) \<noteq> (0, 1)" by simp
    with b have "cell_at cs (fst a + 1, snd a) = Inr cb" by (auto simp: new split: if_splits)
    from down [OF a0(1) this] a0(2) show "bottom_wall (walls ca) = top_wall (walls cb)" by simp
  next
    fix a ca cb
    assume a: "cell_at cs' a = Inr ca" and b: "cell_at cs' (fst a, snd a + 1) = Inr cb"
    from a obtain ca0 where a0: "cell_at cs a = Inr ca0" "right_wall (walls ca0) = right_wall (walls ca)"
      using old by (auto simp: new split: if_splits)
    from b obtain cb0 where b0: "cell_at cs (fst a, snd a + 1) = Inr cb0" "left_wall (walls cb0) = left_wall (walls cb)"
      using old by (auto simp: new split: if_splits)
    from right [OF a0(1) b0(1)] a0(2) b0(2) show "right_wall (walls ca) = left_wall (walls cb)" by simp
  qed
qed

lemma filled_walls_agree:
  "wall_pairs_agree (filled rows cols
     \<lparr>walls = \<lparr>top_wall = True, right_wall = True, bottom_wall = True, left_wall = True\<rparr>,
      visited = False\<rparr>)"
  unfolding wall_pairs_agree_def
  by (auto simp: cell_at_filled split: if_splits)

lemma generateMaze_cells:
  assumes "generateMaze width height difficulty rng = Inr level"
  shows "\<exists>seed cs0 cs1 i cs2 g.
    seed = (case difficulty of Easy \<Rightarrow> (1, 1) | _ \<Rightarrow> (height div 2, width div 2)) \<and>
    update_cell (filled height width
        \<lparr>walls = \<lparr>top_wall = True, right_wall = True, bottom_wall = True, left_wall = True\<rparr>,
         visited = False\<rparr>) seed (\<lambda>cell. cell\<lparr>visited := True\<rparr>) = Inr cs0 \<and>
    carve width height difficulty rng 0 cs0 [seed] = Inr (cs1, i) \<and>
    update_cell cs1 (0, 1) (\<lambda>cell. cell\<lparr>walls := (walls cell)\<lparr>top_wall := False\<rparr>\<rparr>) = Inr cs2 \<and>
    binary_grid width height cs2 = Inr g \<and>
    getRandomStartPosition width height difficulty rng i cs2 = Inr (start level) \<and>
    grid level = g \<and> cells level = Some cs2"
proof -
  define seed where "seed = (case difficulty of Easy \<Rightarrow> (1, 1) | _ \<Rightarrow> (height div 2, width div 2))"
  define init where "init = filled height width
        \<lparr>walls = \<lparr>top_wall = True, right_wall = True, bottom_wall = True, left_wall = True\<rparr>,
         visited = False\<rparr>"
  note gen = assms [unfolded generateMaze_def Let_def, folded seed_def init_def]
  from gen obtain cs0 where cs0: "update_cell init seed (\<lambda>cell. cell\<lparr>visited := True\<rparr>) = Inr cs0"
    by (cases "update_cell init seed (\<lambda>cell. cell\<lparr>visited := True\<rparr>)") simp_all
  from gen cs0 obtain cs1 i where run: "carve width height difficulty rng 0 cs0 [seed] = Inr (cs1, i)"
    by (cases "carve width height difficulty rng 0 cs0 [seed]") auto
  from gen cs0 run obtain cs2 where
    ex: "update_cell cs1 (0, 1) (\<lambda>cell. cell\<lparr>walls := (walls cell)\<lparr>top_wall := False\<rparr>\<rparr>) = Inr cs2"
    by (cases "update_cell cs1 (0, 1) (\<lambda>cell. cell\<lparr>walls := (walls cell)\<lparr>top_wall := False\<rparr>\<rparr>)") simp_all
  from gen cs0 run ex obtain g where g: "binary_grid width height cs2 = Inr g"
    by (cases "binary_grid width height cs2") simp_all
  from gen cs0 run ex g obtain s where s: "getRandomStartPosition width height difficulty rng i cs2 = Inr s"
    by (cases "getRandomStartPosition width height difficulty rng i cs2") simp_all
  from gen cs0 run ex g s have "level = \<lparr>grid = g, start = s, cells = Some cs2\<rparr>" by simp
  with cs0 run ex g s show ?thesis
    unfolding seed_def init_def by auto
qed

section \<open>The grid as a graph\<close>

definition rows_of :: "Level \<Rightarrow> int" where
  "rows_of level = int (length (grid level))"

definition cols_of :: "Level \<Rightarrow> int" where
  "cols_of level = int (length (hd (grid level)))"

definition inside :: "Level \<Rightarrow> Pos \<Rightarrow> bool" where
  "inside level p \<longleftrightarrow> \<not> outside (rows_of level) (cols_of level) p"

text \<open>A well-formed level: a rectangular grid with at least one row, the start within it,
  and wall data (when present) of the same shape.\<close>

definition well_formed :: "Level \<Rightarrow> bool" where
  "well_formed level \<longleftrightarrow>
     grid level \<noteq> [] \<and>
     (\<forall>row \<in> set (grid level). int (length row) = cols_of level) \<and>
     inside level (start level) \<and>
     (\<forall>cs. cells level = Some cs \<longrightarrow>
        int (length cs) = rows_of level \<and> (\<forall>row \<in> set cs. int (length row) = cols_of level))"

text \<open>An array of the level's shape.\<close>

definition shaped :: "Level \<Rightarrow> 'a list list \<Rightarrow> bool" where
  "shaped level m \<longleftrightarrow> int (length m) = rows_of level \<and> (\<forall>row \<in> set m. int (length row) = cols_of level)"

text \<open>A move the solvers may take: from a cell of the grid to a 4-neighbour within the grid
  that the adjacency oracle allows.\<close>

definition edge :: "Level \<Rightarrow> Pos \<Rightarrow> Pos \<Rightarrow> bool" where
  "edge level a b \<longleftrightarrow>
     inside level a \<and> inside level b \<and> b \<in> step_to a ` set DIRS \<and> canMoveBetween level a b = Inr True"

definition is_exit :: "Level \<Rightarrow> Pos \<Rightarrow> bool" where
  "is_exit level p \<longleftrightarrow> canExit level (rows_of level) (cols_of level) p = Inr True"

fun valid_walk :: "Level \<Rightarrow> Pos list \<Rightarrow> bool" where
  "valid_walk level [] = False"
| "valid_walk level [a] = inside level a"
| "valid_walk level (a # b # rest) = (edge level a b \<and> valid_walk level (b # rest))"

text \<open>A walk from the start to a cell that passes the exit test.\<close>

definition exit_walk :: "Level \<Rightarrow> Pos list \<Rightarrow> bool" where
  "exit_walk level ws \<longleftrightarrow> valid_walk level ws \<and> hd ws = start level \<and> is_exit level (last ws)"

lemma shaped_in_range: "shaped level m \<Longrightarrow> in_range m p = inside level p"
  unfolding shaped_def in_range_def inside_def outside_def
  by (cases "0 \<le> fst p \<and> fst p < int (length m)") (auto simp: nat_less_iff)

lemma shaped_cell_at: "shaped level m \<Longrightarrow> inside level p \<Longrightarrow> \<exists>x. cell_at m p = Inr x"
  by (simp add: cell_at_def shaped_in_range)

lemma shaped_set_cell_ok: "shaped level m \<Longrightarrow> inside level p \<Longrightarrow> \<exists>m'. set_cell m p v = Inr m'"
  by (simp add: set_cell_def shaped_in_range)

lemma shaped_set_cell:
  assumes "shaped level m" "set_cell m p v = Inr m'"
  shows "shaped level m'"
proof -
  from assms(2) have m': "m' = m[nat (fst p) := (m ! nat (fst p))[nat (snd p) := v]]"
    and rng: "in_range m p"
    by (auto simp: set_cell_def split: if_splits)
  from in_range_nat [OF rng] have i: "nat (fst p) < length m" by simp
  have "int (length row) = cols_of level" if "row \<in> set m'" for row
  proof -
    from that have "row \<in> insert ((m ! nat (fst p))[nat (snd p) := v]) (set m)"
      unfolding m' using set_update_subset_insert by fastforce
    then show ?thesis
    proof
      assume "row = (m ! nat (fst p))[nat (snd p) := v]"
      then show ?thesis using assms(1) i by (simp add: shaped_def)
    next
      assume "row \<in> set m"
      then show ?thesis using assms(1) by (simp add: shaped_def)
    qed
  qed
  moreover have "int (length m') = rows_of level" using assms(1) by (simp add: m' shaped_def)
  ultimately show ?thesis by (simp add: shaped_def)
qed

lemma shaped_filled:
  assumes "well_formed level"
  shows "shaped level (filled (rows_of level) (cols_of level) v)"
  unfolding shaped_def filled_def rows_of_def cols_of_def by simp

lemma well_formed_grid_shaped: "well_formed level \<Longrightarrow> shaped level (grid level)"
  by (simp add: well_formed_def shaped_def rows_of_def)

lemma well_formed_cells_shaped: "well_formed level \<Longrightarrow> cells level = Some cs \<Longrightarrow> shaped level cs"
  by (simp add: well_formed_def shaped_def)

lemma canMoveBetween_ok:
  assumes "well_formed level" "inside level a" "inside level b"
  shows "\<exists>ok. canMoveBetween level a b = Inr ok"
proof (cases "cells level")
  case None
  from shaped_cell_at [OF well_formed_grid_shaped [OF assms(1)] assms(3)]
  obtain v where "cell_at (grid level) b = Inr v" by blast
  with None show ?thesis by (simp add: canMoveBetween_def)
next
  case (Some cs)
  from shaped_cell_at [OF well_formed_cells_shaped [OF assms(1) Some] assms(2)]
  obtain cell where "cell_at cs a = Inr cell" by blast
  with Some show ?thesis by (auto simp: canMoveBetween_def wall_clear_def Let_def)
qed

lemma canExit_ok:
  assumes "well_formed level" "inside level p"
  shows "\<exists>ok. canExit level (rows_of level) (cols_of level) p = Inr ok"
proof (cases "cells level")
  case None
  then show ?thesis by (simp add: canExit_def)
next
  case (Some cs)
  from shaped_cell_at [OF well_formed_cells_shaped [OF assms(1) Some] assms(2)]
  obtain cell where "cell_at cs p = Inr cell" by blast
  with Some show ?thesis by (auto simp: canExit_def wall_clear_def split: bool.splits)
qed

text \<open>An exit lies on the border, where the heuristic is 0; the heuristic is never
  negative within the grid and changes by at most 1 along a move.\<close>

definition hh :: "Level \<Rightarrow> Pos \<Rightarrow> int" where
  "hh level p = heuristic p (rows_of level) (cols_of level)"

lemma is_exit_border:
  assumes "is_exit level p"
  shows "fst p = 0 \<or> snd p = 0 \<or> fst p = rows_of level - 1 \<or> snd p = cols_of level - 1"
proof (cases "cells level")
  case None
  with assms show ?thesis by (simp add: is_exit_def canExit_def)
next
  case (Some cs)
  show ?thesis
  proof (rule ccontr)
    assume "\<not> ?thesis"
    with Some have "canExit level (rows_of level) (cols_of level) p = Inr False"
      by (simp add: canExit_def)
    with assms show False by (simp add: is_exit_def)
  qed
qed

lemma hh_exit: "is_exit level p \<Longrightarrow> inside level p \<Longrightarrow> hh level p = 0"
  using is_exit_border [of level p]
  by (auto simp: hh_def heuristic_def inside_def outside_def)

lemma hh_nonneg: "inside level p \<Longrightarrow> 0 \<le> hh level p"
  by (auto simp: hh_def heuristic_def inside_def outside_def)

lemma hh_edge: "edge level a b \<Longrightarrow> hh level a \<le> hh level b + 1"
  by (auto simp: edge_def hh_def heuristic_def DIRS_def step_to_def)

lemma valid_walk_inside: "valid_walk level ws \<Longrightarrow> p \<in> set ws \<Longrightarrow> inside level p"
  by (induction level ws rule: valid_walk.induct) (auto simp: edge_def)

lemma hh_walk:
  "valid_walk level (a # rest) \<Longrightarrow> is_exit level (last (a # rest)) \<Longrightarrow> hh level a \<le> int (length rest)"
proof (induction rest arbitrary: a)
  case Nil
  then show ?case using hh_exit [of level a] by simp
next
  case (Cons b rest)
  then have "hh level b \<le> int (length rest)" by simp
  moreover from Cons.prems have "hh level a \<le> hh level b + 1" by (simp add: hh_edge)
  ultimately show ?case by simp
qed


section \<open>What the three shortest-path searches have in common\<close>

text \<open>
  The searches keep a set of expanded cells (\<open>settled\<close>), a set of discovered cells that wait
  (\<open>opn\<close>), a cost \<open>g\<close> and a predecessor \<open>par\<close> for each discovered cell. \<open>tree_ok\<close> says
  that the predecessors form a tree rooted at the start whose depth is \<open>g\<close>.
\<close>

definition tree_ok :: "Level \<Rightarrow> Pos set \<Rightarrow> Pos set \<Rightarrow> (Pos \<Rightarrow> int) \<Rightarrow> (Pos \<Rightarrow> Pos option) \<Rightarrow> bool" where
  "tree_ok level settled opn g par \<longleftrightarrow>
     settled \<inter> opn = {} \<and>
     (\<forall>p \<in> settled \<union> opn. inside level p) \<and>
     start level \<in> settled \<union> opn \<and>
     g (start level) = 0 \<and> par (start level) = None \<and>
     (\<forall>p \<in> settled \<union> opn. 0 \<le> g p) \<and>
     (\<forall>p \<in> settled \<union> opn. p \<noteq> start level \<longrightarrow>
        (\<exists>q \<in> settled. par p = Some q \<and> edge level q p \<and> g p = g q + 1))"

text \<open>A heuristic the optimality argument accepts.\<close>

definition consistent :: "Level \<Rightarrow> (Pos \<Rightarrow> int) \<Rightarrow> bool" where
  "consistent level h \<longleftrightarrow>
     (\<forall>a b. edge level a b \<longrightarrow> h a \<le> h b + 1) \<and>
     (\<forall>p. inside level p \<longrightarrow> 0 \<le> h p) \<and>
     (\<forall>p. inside level p \<longrightarrow> is_exit level p \<longrightarrow> h p = 0)"

definition search_inv ::
  "Level \<Rightarrow> (Pos \<Rightarrow> int) \<Rightarrow> Pos set \<Rightarrow> Pos set \<Rightarrow> (Pos \<Rightarrow> int) \<Rightarrow> (Pos \<Rightarrow> Pos option) \<Rightarrow> bool" where
  "search_inv level h settled opn g par \<longleftrightarrow>
     tree_ok level settled opn g par \<and>
     (\<forall>u \<in> settled. \<forall>v. edge level u v \<longrightarrow> v \<in> settled \<union> opn \<and> g v \<le> g u + 1) \<and>
     (\<forall>x \<in> settled. \<forall>y \<in> opn. g x + h x \<le> g y + h y) \<and>
     (\<forall>u \<in> settled. \<not> is_exit level u)"

text \<open>While the cell \<open>u\<close> is being expanded and the directions \<open>D\<close> have been looked at.\<close>

definition expand_inv ::
  "Level \<Rightarrow> (Pos \<Rightarrow> int) \<Rightarrow> Pos \<Rightarrow> Pos set \<Rightarrow> Pos set \<Rightarrow> Pos set \<Rightarrow> (Pos \<Rightarrow> int) \<Rightarrow> (Pos \<Rightarrow> Pos option) \<Rightarrow> bool" where
  "expand_inv level h u D settled opn g par \<longleftrightarrow>
     u \<in> settled \<and>
     tree_ok level settled opn g par \<and>
     (\<forall>w \<in> settled. w \<noteq> u \<longrightarrow> (\<forall>v. edge level w v \<longrightarrow> v \<in> settled \<union> opn \<and> g v \<le> g w + 1)) \<and>
     (\<forall>d \<in> D. edge level u (step_to u d) \<longrightarrow> step_to u d \<in> settled \<union> opn \<and> g (step_to u d) \<le> g u + 1) \<and>
     (\<forall>x \<in> settled. g x + h x \<le> g u + h u) \<and>
     (\<forall>y \<in> opn. g u + h u \<le> g y + h y) \<and>
     (\<forall>w \<in> settled. \<not> is_exit level w)"

lemma consistent_edge: "consistent level h \<Longrightarrow> edge level a b \<Longrightarrow> h a \<le> h b + 1"
  unfolding consistent_def by blast

lemma consistent_nonneg: "consistent level h \<Longrightarrow> inside level p \<Longrightarrow> 0 \<le> h p"
  unfolding consistent_def by blast

lemma consistent_exit: "consistent level h \<Longrightarrow> inside level p \<Longrightarrow> is_exit level p \<Longrightarrow> h p = 0"
  unfolding consistent_def by blast

lemma consistent_hh: "consistent level (hh level)"
  unfolding consistent_def using hh_edge hh_nonneg hh_exit by blast

lemma consistent_zero: "consistent level (\<lambda>p. 0)"
  by (simp add: consistent_def)

lemma consistent_walk:
  "consistent level h \<Longrightarrow> valid_walk level (a # rest) \<Longrightarrow> is_exit level (last (a # rest))
   \<Longrightarrow> h a \<le> int (length rest)"
proof (induction rest arbitrary: a)
  case Nil
  then show ?case using consistent_exit [of level h a] by simp
next
  case (Cons b rest)
  then have "h b \<le> int (length rest)" by simp
  moreover from Cons.prems have "h a \<le> h b + 1" using consistent_edge [of level h a b] by simp
  ultimately show ?case by simp
qed

lemma frontier_bound:
  assumes inv: "search_inv level h settled opn g par" and h: "consistent level h"
  shows "valid_walk level (a # rest) \<Longrightarrow> is_exit level (last (a # rest)) \<Longrightarrow> a \<in> settled \<union> opn
    \<Longrightarrow> g a \<le> k \<Longrightarrow> \<exists>y \<in> opn. g y + h y \<le> k + int (length rest)"
proof (induction rest arbitrary: a k)
  case Nil
  from Nil.prems(2) inv have "a \<notin> settled" by (auto simp: search_inv_def)
  with Nil.prems(3) have "a \<in> opn" by simp
  moreover from h Nil.prems(1,2) have "h a = 0" using consistent_exit [of level h a] by simp
  ultimately show ?case using Nil.prems(4) by (intro bexI [of _ a]) simp_all
next
  case (Cons b rest)
  show ?case
  proof (cases "a \<in> opn")
    case True
    from consistent_walk [OF h Cons.prems(1,2)] have "h a \<le> int (length (b # rest))" .
    with True Cons.prems(4) show ?thesis by (intro bexI [of _ a]) simp_all
  next
    case False
    with Cons.prems(3) have "a \<in> settled" by simp
    moreover from Cons.prems(1) have e: "edge level a b" by simp
    ultimately have b: "b \<in> settled \<union> opn" "g b \<le> g a + 1"
      using inv unfolding search_inv_def by blast+
    from b(2) Cons.prems(4) have "g b \<le> k + 1" by simp
    from Cons.IH [OF _ _ b(1) this] Cons.prems(1,2)
    obtain y where y: "y \<in> opn" "g y + h y \<le> k + 1 + int (length rest)" by auto
    show ?thesis by (rule bexI [OF _ y(1)]) (use y(2) in simp)
  qed
qed

lemma search_optimal:
  assumes inv: "search_inv level h settled opn g par" and h: "consistent level h"
    and e: "e \<in> opn" and least: "\<forall>y \<in> opn. g e + h e \<le> g y + h y"
    and walk: "exit_walk level ws"
  shows "g e \<le> int (length ws) - 1"
proof -
  from walk obtain rest where ws: "ws = start level # rest"
    by (cases ws) (auto simp: exit_walk_def)
  from inv have s: "start level \<in> settled \<union> opn" "g (start level) \<le> 0"
    by (auto simp: search_inv_def tree_ok_def)
  from walk ws have "valid_walk level (start level # rest)" "is_exit level (last (start level # rest))"
    by (auto simp: exit_walk_def)
  from frontier_bound [OF inv h this s] obtain y where "y \<in> opn" "g y + h y \<le> int (length rest)" by auto
  with least have "g e + h e \<le> int (length rest)" by fastforce
  moreover from inv e have "inside level e" by (auto simp: search_inv_def tree_ok_def)
  with h have "0 \<le> h e" by (simp add: consistent_nonneg)
  ultimately show ?thesis using ws by simp
qed

lemma search_complete:
  assumes inv: "search_inv level h settled {} g par" and h: "consistent level h"
  shows "\<not> exit_walk level ws"
proof
  assume walk: "exit_walk level ws"
  from walk obtain rest where ws: "ws = start level # rest"
    by (cases ws) (auto simp: exit_walk_def)
  from inv have s: "start level \<in> settled \<union> {}" "g (start level) \<le> 0"
    by (auto simp: search_inv_def tree_ok_def)
  from walk ws have "valid_walk level (start level # rest)" "is_exit level (last (start level # rest))"
    by (auto simp: exit_walk_def)
  from frontier_bound [OF inv h this s] show False by simp
qed

text \<open>The predecessor links from a cell back to the root, the cell first.\<close>

fun is_chain :: "(Pos \<Rightarrow> Pos option) \<Rightarrow> Pos list \<Rightarrow> bool" where
  "is_chain par [] = False"
| "is_chain par [r] = (par r = None)"
| "is_chain par (p # q # qs) = (par p = Some q \<and> is_chain par (q # qs))"

lemma valid_walk_snoc:
  "valid_walk level ws \<Longrightarrow> edge level (last ws) p \<Longrightarrow> valid_walk level (ws @ [p])"
  by (induction level ws rule: valid_walk.induct) (auto simp: edge_def)

lemma tree_chain:
  assumes tree: "tree_ok level settled opn g par"
  shows "p \<in> settled \<union> opn \<Longrightarrow> g p = int n \<Longrightarrow>
    \<exists>qs. is_chain par (p # qs) \<and> last (p # qs) = start level \<and> length qs = n \<and>
         valid_walk level (rev (p # qs)) \<and> set qs \<subseteq> settled"
proof (induction n arbitrary: p)
  case 0
  have "p = start level"
  proof (rule ccontr)
    assume "p \<noteq> start level"
    with tree 0(1) obtain q where "q \<in> settled" "g p = g q + 1"
      unfolding tree_ok_def by blast
    moreover from tree \<open>q \<in> settled\<close> have "0 \<le> g q" unfolding tree_ok_def by blast
    ultimately show False using 0(2) by simp
  qed
  moreover from tree have "par (start level) = None" "inside level (start level)"
    unfolding tree_ok_def by blast+
  ultimately show ?case by (intro exI [of _ "[]"]) simp
next
  case (Suc n)
  from tree have "g (start level) = 0" unfolding tree_ok_def by blast
  with Suc.prems(2) have "p \<noteq> start level" by auto
  with tree Suc.prems(1) obtain q where q: "q \<in> settled" "par p = Some q" "edge level q p" "g p = g q + 1"
    unfolding tree_ok_def by blast
  from q(4) Suc.prems(2) have "g q = int n" by simp
  from Suc.IH [OF _ this] q(1) obtain qs where qs: "is_chain par (q # qs)" "last (q # qs) = start level"
    "length qs = n" "valid_walk level (rev (q # qs))" "set qs \<subseteq> settled" by auto
  have "valid_walk level (rev (q # qs) @ [p])"
    by (rule valid_walk_snoc [OF qs(4)]) (simp add: q(3) last_rev)
  with qs q show ?case by (intro exI [of _ "q # qs"]) simp
qed


lemma expand_start:
  assumes inv: "search_inv level h settled opn g par"
    and u: "u \<in> opn" and least: "\<forall>y \<in> opn. g u + h u \<le> g y + h y" and nx: "\<not> is_exit level u"
  shows "expand_inv level h u {} (insert u settled) (opn - {u}) g par"
proof -
  from inv have tree: "tree_ok level settled opn g par"
    and cov: "\<And>w v. w \<in> settled \<Longrightarrow> edge level w v \<Longrightarrow> v \<in> settled \<union> opn \<and> g v \<le> g w + 1"
    and ord: "\<And>x y. x \<in> settled \<Longrightarrow> y \<in> opn \<Longrightarrow> g x + h x \<le> g y + h y"
    and nex: "\<And>w. w \<in> settled \<Longrightarrow> \<not> is_exit level w"
    unfolding search_inv_def by blast+
  have un: "insert u settled \<union> (opn - {u}) = settled \<union> opn" using u by auto
  from tree have "settled \<inter> opn = {}" unfolding tree_ok_def by blast
  then have disj: "insert u settled \<inter> (opn - {u}) = {}" by auto
  have tree': "tree_ok level (insert u settled) (opn - {u}) g par"
    unfolding tree_ok_def un
  proof (intro conjI)
    show "insert u settled \<inter> (opn - {u}) = {}" by (rule disj)
    show "\<forall>p\<in>settled \<union> opn. p \<noteq> start level \<longrightarrow>
        (\<exists>q\<in>insert u settled. par p = Some q \<and> edge level q p \<and> g p = g q + 1)"
      using tree unfolding tree_ok_def by blast
  qed (use tree in \<open>unfold tree_ok_def, blast\<close>)+
  show ?thesis
    unfolding expand_inv_def
  proof (intro conjI)
    show "u \<in> insert u settled" by simp
    show "tree_ok level (insert u settled) (opn - {u}) g par" by (rule tree')
    show "\<forall>w\<in>insert u settled. w \<noteq> u \<longrightarrow>
        (\<forall>v. edge level w v \<longrightarrow> v \<in> insert u settled \<union> (opn - {u}) \<and> g v \<le> g w + 1)"
      unfolding un using cov by blast
    show "\<forall>d\<in>{}. edge level u (step_to u d) \<longrightarrow>
        step_to u d \<in> insert u settled \<union> (opn - {u}) \<and> g (step_to u d) \<le> g u + 1" by simp
    show "\<forall>x\<in>insert u settled. g x + h x \<le> g u + h u" using ord u by auto
    show "\<forall>y\<in>opn - {u}. g u + h u \<le> g y + h y" using least by auto
    show "\<forall>w\<in>insert u settled. \<not> is_exit level w" using nex nx by auto
  qed
qed

lemma expand_finish:
  assumes "expand_inv level h u (set DIRS) settled opn g par"
  shows "search_inv level h settled opn g par"
proof -
  from assms have u: "u \<in> settled" and tree: "tree_ok level settled opn g par"
    and cov: "\<And>w v. w \<in> settled \<Longrightarrow> w \<noteq> u \<Longrightarrow> edge level w v \<Longrightarrow> v \<in> settled \<union> opn \<and> g v \<le> g w + 1"
    and covu: "\<And>d. d \<in> set DIRS \<Longrightarrow> edge level u (step_to u d) \<Longrightarrow>
        step_to u d \<in> settled \<union> opn \<and> g (step_to u d) \<le> g u + 1"
    and lo: "\<And>x. x \<in> settled \<Longrightarrow> g x + h x \<le> g u + h u"
    and hi: "\<And>y. y \<in> opn \<Longrightarrow> g u + h u \<le> g y + h y"
    and nex: "\<And>w. w \<in> settled \<Longrightarrow> \<not> is_exit level w"
    unfolding expand_inv_def by blast+
  have all: "v \<in> settled \<union> opn \<and> g v \<le> g w + 1" if "w \<in> settled" "edge level w v" for w v
  proof (cases "w = u")
    case True
    from that(2) True obtain d where "d \<in> set DIRS" "v = step_to u d" by (auto simp: edge_def)
    with covu that(2) True show ?thesis by blast
  next
    case False
    with cov that show ?thesis by blast
  qed
  have ord: "g x + h x \<le> g y + h y" if "x \<in> settled" "y \<in> opn" for x y
    using lo [OF that(1)] hi [OF that(2)] by simp
  show ?thesis
    unfolding search_inv_def using tree all ord nex by blast
qed

lemma expand_skip:
  assumes inv: "expand_inv level h u D settled opn g par" and h: "consistent level h"
    and skip: "\<not> edge level u (step_to u d) \<or> step_to u d \<in> settled
        \<or> (step_to u d \<in> opn \<and> g (step_to u d) \<le> g u + 1)"
  shows "expand_inv level h u (insert d D) settled opn g par"
proof -
  have new: "step_to u d \<in> settled \<union> opn \<and> g (step_to u d) \<le> g u + 1" if e: "edge level u (step_to u d)"
  proof (cases "step_to u d \<in> settled")
    case True
    with inv have "g (step_to u d) + h (step_to u d) \<le> g u + h u" unfolding expand_inv_def by blast
    moreover from consistent_edge [OF h e] have "h u \<le> h (step_to u d) + 1" .
    ultimately show ?thesis using True by simp
  next
    case False
    with skip e show ?thesis by blast
  qed
  from inv have old: "\<forall>d\<in>D. edge level u (step_to u d) \<longrightarrow>
        step_to u d \<in> settled \<union> opn \<and> g (step_to u d) \<le> g u + 1"
    unfolding expand_inv_def by blast
  from old new have "\<forall>d'\<in>insert d D. edge level u (step_to u d') \<longrightarrow>
        step_to u d' \<in> settled \<union> opn \<and> g (step_to u d') \<le> g u + 1" by blast
  with inv show ?thesis unfolding expand_inv_def by blast
qed

lemma expand_relax:
  assumes inv: "expand_inv level h u D settled opn g par" and h: "consistent level h"
    and e: "edge level u v" and v: "v = step_to u d" and vs: "v \<notin> settled"
    and better: "v \<notin> opn \<or> g u + 1 < g v"
  shows "expand_inv level h u (insert d D) settled (insert v opn) (g(v := g u + 1)) (par(v \<mapsto> u))"
proof -
  from inv have u: "u \<in> settled" and tree: "tree_ok level settled opn g par"
    and cov: "\<And>w x. w \<in> settled \<Longrightarrow> w \<noteq> u \<Longrightarrow> edge level w x \<Longrightarrow> x \<in> settled \<union> opn \<and> g x \<le> g w + 1"
    and covu: "\<And>d. d \<in> D \<Longrightarrow> edge level u (step_to u d) \<Longrightarrow>
        step_to u d \<in> settled \<union> opn \<and> g (step_to u d) \<le> g u + 1"
    and lo: "\<And>x. x \<in> settled \<Longrightarrow> g x + h x \<le> g u + h u"
    and hi: "\<And>y. y \<in> opn \<Longrightarrow> g u + h u \<le> g y + h y"
    and nex: "\<And>w. w \<in> settled \<Longrightarrow> \<not> is_exit level w"
    unfolding expand_inv_def by blast+
  from tree have disj: "settled \<inter> opn = {}" and ins: "\<And>p. p \<in> settled \<union> opn \<Longrightarrow> inside level p"
    and s: "start level \<in> settled \<union> opn" and gs: "g (start level) = 0" and ps: "par (start level) = None"
    and nonneg: "\<And>p. p \<in> settled \<union> opn \<Longrightarrow> 0 \<le> g p"
    and link: "\<And>p. p \<in> settled \<union> opn \<Longrightarrow> p \<noteq> start level \<Longrightarrow>
        \<exists>q\<in>settled. par p = Some q \<and> edge level q p \<and> g p = g q + 1"
    unfolding tree_ok_def by blast+
  let ?g = "g(v := g u + 1)" and ?par = "par(v \<mapsto> u)"
  from nonneg u have gu: "0 \<le> g u" by blast
  have vne: "v \<noteq> start level"
  proof
    assume vs': "v = start level"
    with s vs have "v \<in> opn" by blast
    with better have "g u + 1 < g v" by blast
    with vs' gs gu show False by simp
  qed
  have vu: "v \<noteq> u" using u vs by blast
  have same: "?g q = g q" if "q \<in> settled" for q using that vs by auto
  have tree': "tree_ok level settled (insert v opn) ?g ?par"
    unfolding tree_ok_def
  proof (intro conjI ballI impI)
    show "settled \<inter> insert v opn = {}" using disj vs by blast
    show "start level \<in> settled \<union> insert v opn" using s by blast
    show "?g (start level) = 0" using gs vne by simp
    show "?par (start level) = None" using ps vne by simp
    have iv: "inside level v" using e by (simp add: edge_def)
    show "inside level p" if "p \<in> settled \<union> insert v opn" for p
      using that ins iv by blast
    show "0 \<le> ?g p" if "p \<in> settled \<union> insert v opn" for p
    proof (cases "p = v")
      case True
      with gu show ?thesis by simp
    next
      case False
      with that have "p \<in> settled \<union> opn" by blast
      from nonneg [OF this] False show ?thesis by simp
    qed
    show "\<exists>q\<in>settled. ?par p = Some q \<and> edge level q p \<and> ?g p = ?g q + 1"
      if "p \<in> settled \<union> insert v opn" "p \<noteq> start level" for p
    proof (cases "p = v")
      case True
      with u e vu show ?thesis by (intro bexI [of _ u]) simp_all
    next
      case False
      with that have "p \<in> settled \<union> opn" by blast
      from link [OF this that(2)] obtain q where q: "q \<in> settled" "par p = Some q" "edge level q p" "g p = g q + 1"
        by blast
      with False same [OF q(1)] show ?thesis by (intro bexI [of _ q]) simp_all
    qed
  qed
  have cov': "x \<in> settled \<union> insert v opn \<and> ?g x \<le> ?g w + 1"
    if w: "w \<in> settled" "w \<noteq> u" and ex: "edge level w x" for w x
  proof -
    from cov [OF w ex] have old: "x \<in> settled \<union> opn" "g x \<le> g w + 1" by blast+
    show ?thesis
    proof (cases "x = v")
      case True
      with old(1) vs have "v \<in> opn" by blast
      with better have "g u + 1 < g v" by blast
      with old(2) True same [OF w(1)] show ?thesis by simp
    next
      case False
      with old same [OF w(1)] show ?thesis by simp
    qed
  qed
  have covu': "step_to u d' \<in> settled \<union> insert v opn \<and> ?g (step_to u d') \<le> ?g u + 1"
    if d': "d' \<in> insert d D" and ex: "edge level u (step_to u d')" for d'
  proof (cases "step_to u d' = v")
    case True
    then show ?thesis using vu by simp
  next
    case False
    with d' v have "d' \<in> D" by auto
    from covu [OF this ex] False vu show ?thesis by simp
  qed
  have lo': "?g x + h x \<le> ?g u + h u" if "x \<in> settled" for x
    using lo [OF that] same [OF that] same [OF u] by simp
  have hi': "?g u + h u \<le> ?g y + h y" if "y \<in> insert v opn" for y
  proof (cases "y = v")
    case True
    from consistent_edge [OF h e] have "h u \<le> h v + 1" .
    with True vu show ?thesis by simp
  next
    case False
    with that have "y \<in> opn" by blast
    from hi [OF this] False vu show ?thesis by simp
  qed
  show ?thesis
    unfolding expand_inv_def
    using u tree' cov' covu' lo' hi' nex by blast
qed

section \<open>Reading the solvers' arrays\<close>

definition score_of :: "number list list \<Rightarrow> Pos \<Rightarrow> int" where
  "score_of m p = (case cell_at m p of Inr (Fin k) \<Rightarrow> k | _ \<Rightarrow> 0)"

definition parent_of :: "Pos option list list \<Rightarrow> Pos \<Rightarrow> Pos option" where
  "parent_of m p = (case cell_at m p of Inr q \<Rightarrow> q | Inl e \<Rightarrow> None)"

lemma score_of_set_cell: "set_cell m p (Fin k) = Inr m' \<Longrightarrow> score_of m' = (score_of m)(p := k)"
  by (rule ext) (simp add: score_of_def cell_at_set_cell)

lemma parent_of_set_cell: "set_cell m p (Some q) = Inr m' \<Longrightarrow> parent_of m' = (parent_of m)(p \<mapsto> q)"
  by (rule ext) (simp add: parent_of_def cell_at_set_cell)

lemma score_of_Fin: "cell_at m p = Inr (Fin k) \<Longrightarrow> score_of m p = k"
  by (simp add: score_of_def)

lemma find_lowest_least:
  assumes "\<forall>p \<in> set (current # ps). \<exists>k. cell_at score p = Inr (Fin k)"
  shows "\<exists>c idx. find_lowest score ps i current ci = Inr (c, idx) \<and>
           (\<forall>y \<in> set (current # ps). score_of score c \<le> score_of score y)"
  using assms
proof (induction ps arbitrary: i current ci)
  case Nil
  then show ?case by simp
next
  case (Cons p ps)
  from Cons.prems obtain ka kb where a: "cell_at score p = Inr (Fin ka)" and b: "cell_at score current = Inr (Fin kb)"
    by auto
  show ?case
  proof (cases "ka < kb")
    case True
    have "\<forall>q \<in> set (p # ps). \<exists>k. cell_at score q = Inr (Fin k)" using Cons.prems by simp
    from Cons.IH [OF this, of "i + 1" i] obtain c idx where
      c: "find_lowest score ps (i + 1) p i = Inr (c, idx)" "\<forall>y \<in> set (p # ps). score_of score c \<le> score_of score y"
      by blast
    from c(2) have "score_of score c \<le> score_of score p" by simp
    with True a b have "score_of score c \<le> score_of score current" by (simp add: score_of_Fin)
    with c a b True show ?thesis by simp
  next
    case False
    have "\<forall>q \<in> set (current # ps). \<exists>k. cell_at score q = Inr (Fin k)" using Cons.prems by simp
    from Cons.IH [OF this, of "i + 1" ci] obtain c idx where
      c: "find_lowest score ps (i + 1) current ci = Inr (c, idx)"
         "\<forall>y \<in> set (current # ps). score_of score c \<le> score_of score y"
      by blast
    from c(2) have "score_of score c \<le> score_of score current" by simp
    with False a b have "score_of score c \<le> score_of score p" by (simp add: score_of_Fin)
    with c a b False show ?thesis by simp
  qed
qed

lemma splice1_distinct:
  assumes "distinct xs" "k < length xs"
  shows "distinct (splice1 k xs)" and "set (splice1 k xs) = set xs - {xs ! k}"
proof -
  have xs: "xs = take k xs @ xs ! k # drop (Suc k) xs" using assms(2) by (rule id_take_nth_drop)
  with assms(1) have d: "distinct (take k xs @ xs ! k # drop (Suc k) xs)" by simp
  then show "distinct (splice1 k xs)" by (simp add: splice1_def)
  have "set xs = set (take k xs @ xs ! k # drop (Suc k) xs)" using xs by simp
  then have "set xs = set (take k xs) \<union> {xs ! k} \<union> set (drop (Suc k) xs)"
    by (simp only: set_append list.set) auto
  moreover from d have "xs ! k \<notin> set (take k xs)" "xs ! k \<notin> set (drop (Suc k) xs)" by auto
  ultimately show "set (splice1 k xs) = set xs - {xs ! k}"
    by (auto simp: splice1_def)
qed

text \<open>The two walks up the \<^verbatim>\<open>parent\<close> links end when the links form a chain.\<close>

lemma parent_path_chain:
  "is_chain (parent_of m) (p # qs) \<Longrightarrow> \<forall>x \<in> set (p # qs). in_range m x
   \<Longrightarrow> parent_path m p acc = Some (Inr (acc @ p # qs))"
proof (induction qs arbitrary: p acc)
  case Nil
  then have "cell_at m p = Inr None" by (simp add: parent_of_def cell_at_def)
  then show ?case by (subst parent_path.simps) simp
next
  case (Cons q qs)
  then have "cell_at m p = Inr (Some q)" by (simp add: parent_of_def cell_at_def)
  moreover from Cons have "parent_path m q (acc @ [p]) = Some (Inr ((acc @ [p]) @ q # qs))" by simp
  ultimately show ?case by (subst parent_path.simps) simp
qed

lemma parent_depth_chain:
  "is_chain (parent_of m) (p # qs) \<Longrightarrow> \<forall>x \<in> set (p # qs). in_range m x
   \<Longrightarrow> parent_depth m p d = Some (Inr (d + length qs))"
proof (induction qs arbitrary: p d)
  case Nil
  then have "cell_at m p = Inr None" by (simp add: parent_of_def cell_at_def)
  then show ?case by (subst parent_depth.simps) simp
next
  case (Cons q qs)
  then have "cell_at m p = Inr (Some q)" by (simp add: parent_of_def cell_at_def)
  moreover from Cons have "parent_depth m q (d + 1) = Some (Inr (d + 1 + length qs))" by simp
  ultimately show ?case by (subst parent_depth.simps) simp
qed


section \<open>Dijkstra: the loop invariant\<close>

text \<open>What ties the arrays of \<^verbatim>\<open>solveDijkstra\<close> to the sets and functions of the search:
  \<^verbatim>\<open>visited\<close> marks the expanded cells, a finite \<^verbatim>\<open>distance\<close> marks the discovered ones.\<close>

definition dijkstra_arrays ::
  "Level \<Rightarrow> Pos list \<Rightarrow> bool list list \<Rightarrow> number list list \<Rightarrow> Pos option list list \<Rightarrow> Pos list \<Rightarrow> bool" where
  "dijkstra_arrays level queue vis dists parent seen \<longleftrightarrow>
     shaped level vis \<and> shaped level dists \<and> shaped level parent \<and>
     distinct queue \<and> distinct seen \<and>
     (\<forall>p. inside level p \<longrightarrow> cell_at vis p = Inr (p \<in> set seen)) \<and>
     (\<forall>p. inside level p \<longrightarrow> (p \<in> set seen \<union> set queue) = (cell_at dists p \<noteq> Inr Infinity))"

definition dijkstra_inv ::
  "Level \<Rightarrow> Pos list \<Rightarrow> bool list list \<Rightarrow> number list list \<Rightarrow> Pos option list list \<Rightarrow> Pos list \<Rightarrow> bool" where
  "dijkstra_inv level queue vis dists parent seen \<longleftrightarrow>
     dijkstra_arrays level queue vis dists parent seen \<and>
     search_inv level (\<lambda>p. 0) (set seen) (set queue) (score_of dists) (parent_of parent)"

definition dijkstra_expanding ::
  "Level \<Rightarrow> Pos \<Rightarrow> Pos set \<Rightarrow> Pos list \<Rightarrow> bool list list \<Rightarrow> number list list \<Rightarrow> Pos option list list \<Rightarrow> Pos list \<Rightarrow> bool" where
  "dijkstra_expanding level u D queue vis dists parent seen \<longleftrightarrow>
     dijkstra_arrays level queue vis dists parent seen \<and>
     expand_inv level (\<lambda>p. 0) u D (set seen) (set queue) (score_of dists) (parent_of parent)"

lemma dijkstra_arraysD:
  assumes "dijkstra_arrays level queue vis dists parent seen"
  shows "shaped level vis" "shaped level dists" "shaped level parent" "distinct queue" "distinct seen"
    and "\<And>p. inside level p \<Longrightarrow> cell_at vis p = Inr (p \<in> set seen)"
    and "\<And>p. inside level p \<Longrightarrow> (p \<in> set seen \<union> set queue) = (cell_at dists p \<noteq> Inr Infinity)"
  using assms unfolding dijkstra_arrays_def by blast+

lemma dijkstra_arrays_found:
  assumes "dijkstra_arrays level queue vis dists parent seen" "p \<in> set seen \<union> set queue" "inside level p"
  shows "cell_at dists p = Inr (Fin (score_of dists p))"
proof -
  from assms have ne: "cell_at dists p \<noteq> Inr Infinity" and sh: "shaped level dists"
    unfolding dijkstra_arrays_def by blast+
  from shaped_cell_at [OF sh assms(3)] obtain x where x: "cell_at dists p = Inr x" by blast
  with ne show ?thesis by (cases x) (simp_all add: score_of_def)
qed

lemma dijkstra_neighbors_step:
  assumes wf: "well_formed level"
    and ds: "set ds \<subseteq> set DIRS"
    and inv: "dijkstra_expanding level u D queue vis dists parent seen"
  shows "\<exists>dists' parent' queue' relaxed'.
     dijkstra_neighbors level (rows_of level) (cols_of level) u vis ds dists parent queue relaxed
       = Inr (dists', parent', queue', relaxed') \<and>
     dijkstra_expanding level u (D \<union> set ds) queue' vis dists' parent' seen"
  using ds inv
proof (induction ds arbitrary: D dists parent queue relaxed)
  case Nil
  then show ?case by simp
next
  case (Cons d ds)
  let ?n = "step_to u d"
  let ?g = "score_of dists"
  note h0 = consistent_zero [of level]
  from Cons.prems have d: "d \<in> set DIRS" and ds: "set ds \<subseteq> set DIRS" by auto
  from Cons.prems(2) have arr: "dijkstra_arrays level queue vis dists parent seen"
    and ex: "expand_inv level (\<lambda>p. 0) u D (set seen) (set queue) ?g (parent_of parent)"
    unfolding dijkstra_expanding_def by blast+
  from ex have u: "u \<in> set seen" and tree: "tree_ok level (set seen) (set queue) ?g (parent_of parent)"
    unfolding expand_inv_def by blast+
  from tree u have iu: "inside level u" unfolding tree_ok_def by blast
  have un: "insert d D \<union> set ds = D \<union> set (d # ds)" by auto
  have skip: ?case
    if run: "dijkstra_neighbors level (rows_of level) (cols_of level) u vis (d # ds) dists parent queue relaxed
        = dijkstra_neighbors level (rows_of level) (cols_of level) u vis ds dists parent queue relaxed"
    and why: "\<not> edge level u ?n \<or> ?n \<in> set seen \<or> (?n \<in> set queue \<and> ?g ?n \<le> ?g u + 1)"
  proof -
    from expand_skip [OF ex h0 why] arr
    have "dijkstra_expanding level u (insert d D) queue vis dists parent seen"
      unfolding dijkstra_expanding_def by blast
    from Cons.IH [OF ds this, of relaxed] show ?thesis unfolding run un by blast
  qed
  show ?case
  proof (cases "outside (rows_of level) (cols_of level) ?n")
    case True
    then have "\<not> edge level u ?n" by (simp add: edge_def inside_def)
    with True show ?thesis by (intro skip) (simp_all add: Let_def)
  next
    case out: False
    then have inn: "inside level ?n" by (simp add: inside_def)
    from canMoveBetween_ok [OF wf iu inn] obtain ok where ok: "canMoveBetween level u ?n = Inr ok" by blast
    show ?thesis
    proof (cases ok)
      case False
      with ok have "\<not> edge level u ?n" by (simp add: edge_def)
      with out ok False show ?thesis by (intro skip) (simp_all add: Let_def)
    next
      case True
      with ok iu inn d have e: "edge level u ?n" by (simp add: edge_def)
      from arr inn have visn: "cell_at vis ?n = Inr (?n \<in> set seen)" unfolding dijkstra_arrays_def by blast
      show ?thesis
      proof (cases "?n \<in> set seen")
        case seen: True
        with out ok True visn show ?thesis by (intro skip) (simp_all add: Let_def)
      next
        case fresh: False
        from dijkstra_arrays_found [OF arr _ iu] u have du: "cell_at dists u = Inr (Fin (?g u))" by simp
        from arr have shd: "shaped level dists" and shp: "shaped level parent"
          unfolding dijkstra_arrays_def by blast+
        from shaped_cell_at [OF shd inn] obtain dn where dn: "cell_at dists ?n = Inr dn" by blast
        show ?thesis
        proof (cases "number_less (Fin (?g u + 1)) dn")
          case False
          then obtain k where k: "dn = Fin k" "k \<le> ?g u + 1" by (cases dn) auto
          with dn have "cell_at dists ?n \<noteq> Inr Infinity" by simp
          with arr inn fresh have "?n \<in> set queue" unfolding dijkstra_arrays_def by blast
          moreover from dn k have "?g ?n \<le> ?g u + 1" by (simp add: score_of_def)
          ultimately show ?thesis
            using out ok True visn fresh du dn False by (intro skip) (simp_all add: Let_def)
        next
          case less: True
          from shaped_set_cell_ok [OF shd inn] obtain dists' where
            sd: "set_cell dists ?n (Fin (?g u + 1)) = Inr dists'" by blast
          from shaped_set_cell_ok [OF shp inn] obtain parent' where
            sp: "set_cell parent ?n (Some u) = Inr parent'" by blast
          let ?queue' = "if ?n \<in> set queue then queue else queue @ [?n]"
          have run: "dijkstra_neighbors level (rows_of level) (cols_of level) u vis (d # ds) dists parent queue relaxed
            = dijkstra_neighbors level (rows_of level) (cols_of level) u vis ds dists' parent' ?queue' (relaxed + 1)"
            using out ok True visn fresh du dn less sd sp by (simp add: Let_def)
          have better: "?n \<notin> set queue \<or> ?g u + 1 < ?g ?n"
          proof (cases dn)
            case (Fin k)
            with less dn show ?thesis by (simp add: score_of_def)
          next
            case Infinity
            with dn arr inn show ?thesis unfolding dijkstra_arrays_def by blast
          qed
          have setq: "set ?queue' = insert ?n (set queue)" by auto
          from expand_relax [OF ex h0 e refl fresh better]
          have ex': "expand_inv level (\<lambda>p. 0) u (insert d D) (set seen) (set ?queue')
              (score_of dists') (parent_of parent')"
            unfolding setq score_of_set_cell [OF sd] parent_of_set_cell [OF sp] .
          have arr': "dijkstra_arrays level ?queue' vis dists' parent' seen"
            unfolding dijkstra_arrays_def
          proof (intro conjI allI impI)
            show "shaped level vis" using arr unfolding dijkstra_arrays_def by blast
            show "shaped level dists'" by (rule shaped_set_cell [OF shd sd])
            show "shaped level parent'" by (rule shaped_set_cell [OF shp sp])
            show "distinct ?queue'" using arr unfolding dijkstra_arrays_def by auto
            show "distinct seen" using arr unfolding dijkstra_arrays_def by blast
            show "cell_at vis p = Inr (p \<in> set seen)" if "inside level p" for p
              using arr that unfolding dijkstra_arrays_def by blast
            show "(p \<in> set seen \<union> set ?queue') = (cell_at dists' p \<noteq> Inr Infinity)" if "inside level p" for p
            proof (cases "p = ?n")
              case True
              then show ?thesis by (simp add: cell_at_set_cell [OF sd])
            next
              case False
              moreover from arr that have "(p \<in> set seen \<union> set queue) = (cell_at dists p \<noteq> Inr Infinity)"
                unfolding dijkstra_arrays_def by blast
              ultimately show ?thesis by (simp add: cell_at_set_cell [OF sd] setq del: set_append)
            qed
          qed
          from ex' arr' have "dijkstra_expanding level u (insert d D) ?queue' vis dists' parent' seen"
            unfolding dijkstra_expanding_def by blast
          from Cons.IH [OF ds this, of "relaxed + 1"] show ?thesis unfolding run un by blast
        qed
      qed
    qed
  qed
qed


text \<open>What a shortest-path solver owes its caller: \<^verbatim>\<open>null\<close> only when no walk from the start
  reaches an exit, otherwise such a walk of the least length, with \<^verbatim>\<open>distance\<close> its number of
  moves, and no cell twice in \<^verbatim>\<open>visitedCells\<close>.\<close>

definition shortest_result :: "Level \<Rightarrow> Solution option \<Rightarrow> bool" where
  "shortest_result level out \<longleftrightarrow>
     (case out of
        None \<Rightarrow> (\<forall>ws. \<not> exit_walk level ws)
      | Some sol \<Rightarrow>
          exit_walk level (path sol) \<and> distance sol = int (length (path sol)) - 1 \<and>
          (\<forall>ws. exit_walk level ws \<longrightarrow> length (path sol) \<le> length ws) \<and>
          distinct (visitedCells sol))"

lemma found_path:
  assumes tree: "tree_ok level settled opn g (parent_of parent)"
    and sh: "shaped level parent"
    and p: "p \<in> settled \<union> opn"
  shows "\<exists>qs. parent_path parent p [] = Some (Inr (p # qs)) \<and> int (length qs) = g p \<and>
           valid_walk level (rev (p # qs)) \<and> hd (rev (p # qs)) = start level"
proof -
  from tree p have "0 \<le> g p" unfolding tree_ok_def by blast
  then obtain n where n: "g p = int n" using nonneg_int_cases by blast
  from tree_chain [OF tree p n] obtain qs where
    qs: "is_chain (parent_of parent) (p # qs)" "last (p # qs) = start level" "length qs = n"
      "valid_walk level (rev (p # qs))" "set qs \<subseteq> settled"
    by blast
  from tree p qs(5) have "\<forall>x \<in> set (p # qs). inside level x" unfolding tree_ok_def by auto
  then have "\<forall>x \<in> set (p # qs). in_range parent x" by (simp add: shaped_in_range [OF sh])
  have "hd (rev (p # qs)) = last (p # qs)" by (rule hd_rev)
  with qs(2) have "hd (rev (p # qs)) = start level" by (simp only:)
  with parent_path_chain [OF qs(1) \<open>\<forall>x \<in> set (p # qs). in_range parent x\<close>, of "[]"] qs(3,4) n
  show ?thesis by (intro exI [of _ qs]) simp
qed

lemma dijkstra_loop_correct:
  "well_formed level \<Longrightarrow> rows = rows_of level \<Longrightarrow> cols = cols_of level \<Longrightarrow>
    dijkstra_inv level queue vis dists parent seen \<Longrightarrow>
    \<exists>out. dijkstra_loop level rows cols queue vis dists parent seen steps stepNo = Some (Inr out)
       \<and> shortest_result level out"
proof (induction level rows cols queue vis dists parent seen steps stepNo rule: dijkstra_loop.induct)
  case (1 level rows cols queue vis dists parent seen steps stepNo)
  note unfold = dijkstra_loop.simps [of level rows cols queue vis dists parent seen steps stepNo]
  note h0 = consistent_zero [of level]
  note wf = "1.prems"(1) and rc = "1.prems"(2,3)
  from "1.prems" have arr: "dijkstra_arrays level queue vis dists parent seen"
    and inv: "search_inv level (\<lambda>p. 0) (set seen) (set queue) (score_of dists) (parent_of parent)"
    unfolding dijkstra_inv_def by blast+
  from inv have tree: "tree_ok level (set seen) (set queue) (score_of dists) (parent_of parent)"
    unfolding search_inv_def by blast
  show ?case
  proof (cases queue)
    case Nil
    with inv have "search_inv level (\<lambda>p. 0) (set seen) {} (score_of dists) (parent_of parent)" by simp
    from search_complete [OF this h0] show ?thesis
      by (subst unfold) (simp add: Nil shortest_result_def)
  next
    case (Cons first others)
    have found: "\<forall>p \<in> set (first # others). \<exists>k. cell_at dists p = Inr (Fin k)"
    proof
      fix p assume "p \<in> set (first # others)"
      with Cons have pq: "p \<in> set seen \<union> set queue" by auto
      with tree have "inside level p" unfolding tree_ok_def by blast
      from dijkstra_arrays_found [OF arr pq this] show "\<exists>k. cell_at dists p = Inr (Fin k)" by blast
    qed
    from find_lowest_least [OF found, of 1 0] obtain current idx where
      low: "find_lowest dists others 1 first 0 = Inr (current, idx)"
      and least: "\<forall>y \<in> set (first # others). score_of dists current \<le> score_of dists y"
      by blast
    from find_lowest_member [OF low] Cons have idx: "idx < length queue" and cur: "queue ! idx = current"
      by simp_all
    then have cq: "current \<in> set queue" by auto
    with tree have ic: "inside level current" unfolding tree_ok_def by blast
    from arr have shv: "shaped level vis" and shp: "shaped level parent" and dq: "distinct queue"
      and dseen: "distinct seen"
      unfolding dijkstra_arrays_def by blast+
    from tree cq have cns: "current \<notin> set seen" unfolding tree_ok_def by blast
    from shaped_set_cell_ok [OF shv ic] obtain vis' where vis': "set_cell vis current True = Inr vis'" by blast
    from canExit_ok [OF wf ic] rc obtain ex where
      ex: "canExit level rows cols current = Inr ex" by auto
    show ?thesis
    proof (cases ex)
      case True
      with ex rc have isx: "is_exit level current" by (simp add: is_exit_def)
      from found_path [OF tree shp] cq obtain qs where
        pp: "parent_path parent current [] = Some (Inr (current # qs))"
        and len: "int (length qs) = score_of dists current"
        and walk: "valid_walk level (rev (current # qs))"
        and hd: "hd (rev (current # qs)) = start level"
        by blast
      have run: "dijkstra_loop level rows cols queue vis dists parent seen steps stepNo =
        Some (Inr (Some \<lparr>distance = int (length (current # qs)) - 1, path = rev (current # qs),
          visitedCells = seen @ [current], algorithm = ''Dijkstra'',
          detailedSteps = steps, aStarScores = None\<rparr>))"
        by (subst unfold) (simp add: Cons low vis' ex True pp del: One_nat_def)
      have ew: "exit_walk level (rev (current # qs))"
        using walk hd isx by (simp add: exit_walk_def)
      have opt: "length (rev (current # qs)) \<le> length ws" if w: "exit_walk level ws" for ws
      proof -
        from least Cons have "\<forall>y \<in> set queue. score_of dists current + 0 \<le> score_of dists y + 0" by simp
        from search_optimal [OF inv h0 cq this w] len show ?thesis by simp
      qed
      from ew opt dseen cns show ?thesis
        unfolding run by (simp add: shortest_result_def)
    next
      case False
      with ex rc have nx: "\<not> is_exit level current" by (simp add: is_exit_def)
      from least Cons have least': "\<forall>y \<in> set queue. score_of dists current + 0 \<le> score_of dists y + 0" by simp
      from expand_start [OF inv cq least' nx]
      have ei: "expand_inv level (\<lambda>p. 0) current {} (set (seen @ [current])) (set (splice1 idx queue))
          (score_of dists) (parent_of parent)"
        using splice1_distinct(2) [OF dq idx] cur by simp
      have sq: "set (splice1 idx queue) = set queue - {current}"
        using splice1_distinct(2) [OF dq idx] unfolding cur .
      have arr1: "dijkstra_arrays level (splice1 idx queue) vis' dists parent (seen @ [current])"
        unfolding dijkstra_arrays_def
      proof (intro conjI allI impI)
        show "shaped level vis'" by (rule shaped_set_cell [OF shv vis'])
        show "shaped level dists" "shaped level parent" using arr unfolding dijkstra_arrays_def by blast+
        show "distinct (splice1 idx queue)" by (rule splice1_distinct(1) [OF dq idx])
        show "distinct (seen @ [current])" using dseen cns by simp
        show "cell_at vis' p = Inr (p \<in> set (seen @ [current]))" if "inside level p" for p
          using dijkstra_arraysD(6) [OF arr that] by (cases "p = current") (simp_all add: cell_at_set_cell [OF vis'])
        show "(p \<in> set (seen @ [current]) \<union> set (splice1 idx queue)) = (cell_at dists p \<noteq> Inr Infinity)"
          if "inside level p" for p
        proof -
          have eq: "set (seen @ [current]) \<union> set (splice1 idx queue) = set seen \<union> set queue"
            unfolding sq using cq by (simp only: set_append list.set) blast
          show ?thesis unfolding eq by (rule dijkstra_arraysD(7) [OF arr that])
        qed
      qed
      from ei arr1 have "dijkstra_expanding level current {} (splice1 idx queue) vis' dists parent (seen @ [current])"
        unfolding dijkstra_expanding_def by blast
      from dijkstra_neighbors_step [OF wf subset_refl this, of 0] obtain dists' parent' queue' relaxed where
        nb: "dijkstra_neighbors level (rows_of level) (cols_of level) current vis' DIRS dists parent
               (splice1 idx queue) 0 = Inr (dists', parent', queue', relaxed)"
        and after: "dijkstra_expanding level current ({} \<union> set DIRS) queue' vis' dists' parent' (seen @ [current])"
        by blast
      from after have arr2: "dijkstra_arrays level queue' vis' dists' parent' (seen @ [current])"
        and ei2: "expand_inv level (\<lambda>p. 0) current (set DIRS) (set (seen @ [current])) (set queue')
            (score_of dists') (parent_of parent')"
        unfolding dijkstra_expanding_def by simp_all
      from expand_finish [OF ei2] arr2
      have inv2: "dijkstra_inv level queue' vis' dists' parent' (seen @ [current])"
        unfolding dijkstra_inv_def by blast
      from arr2 have "shaped level dists'" unfolding dijkstra_arrays_def by blast
      from shaped_cell_at [OF this ic] obtain cd where cd: "cell_at dists' current = Inr cd" by blast
      from nb rc have nb': "dijkstra_neighbors level rows cols current vis' DIRS dists parent
               (splice1 idx queue) 0 = Inr (dists', parent', queue', relaxed)" by simp
      from False have exF: "ex = False" by simp
      from "1.IH" [OF Cons low refl vis' ex exF nb' refl refl refl cd wf rc inv2]
      obtain out where "dijkstra_loop level rows cols queue' vis' dists' parent' (seen @ [current])
           (steps @ [\<lparr>position = current, stepNumber = stepNo,
              algorithmData = DijkstraData cd relaxed (length queue')\<rparr>]) (stepNo + 1) = Some (Inr out)"
        "shortest_result level out" by blast
      then show ?thesis
        by (subst unfold) (simp add: Cons low vis' ex False nb' [unfolded Cons] cd del: One_nat_def)
    qed
  qed
qed


lemma solver_rows_cols:
  assumes "well_formed level"
  obtains row0 rest where "grid level = row0 # rest"
    "int (length (grid level)) = rows_of level" "int (length row0) = cols_of level"
  using assms by (cases "grid level") (auto simp: well_formed_def rows_of_def cols_of_def)

lemma cell_at_filled_shape:
  "cell_at (filled (rows_of level) (cols_of level) v) p = (if inside level p then Inr v else Inl IndexOutOfRange)"
  by (auto simp: cell_at_filled inside_def outside_def)

lemma solveDijkstra_correct:
  assumes wf: "well_formed level"
  shows "\<exists>out. solveDijkstra level = Some (Inr out) \<and> shortest_result level out"
proof -
  let ?s = "start level"
  from wf obtain row0 rest where g: "grid level = row0 # rest"
    and r: "int (length (grid level)) = rows_of level" and c: "int (length row0) = cols_of level"
    by (rule solver_rows_cols)
  from wf have ins: "inside level ?s" by (simp add: well_formed_def)
  note shf = shaped_filled [OF wf]
  from shaped_set_cell_ok [OF shaped_filled [OF wf, of Infinity] ins, of "Fin 0"] obtain dists where
    dists: "set_cell (filled (rows_of level) (cols_of level) Infinity) ?s (Fin 0) = Inr dists" by blast
  have run: "solveDijkstra level = dijkstra_loop level (rows_of level) (cols_of level) [?s]
      (filled (rows_of level) (cols_of level) False) dists (filled (rows_of level) (cols_of level) None) [] [] 0"
    unfolding solveDijkstra_def rows_of_def cols_of_def g
    using dists [unfolded rows_of_def cols_of_def g] by (simp add: Let_def)
  have gs: "score_of dists = (score_of (filled (rows_of level) (cols_of level) Infinity))(?s := 0)"
    by (rule score_of_set_cell [OF dists])
  have par: "parent_of (filled (rows_of level) (cols_of level) None) p = None" for p
    by (simp add: parent_of_def cell_at_filled_shape)
  have tree: "tree_ok level {} {?s} (score_of dists) (parent_of (filled (rows_of level) (cols_of level) None))"
    unfolding tree_ok_def using ins by (simp add: gs par)
  have inv: "search_inv level (\<lambda>p. 0) (set []) (set [?s]) (score_of dists)
      (parent_of (filled (rows_of level) (cols_of level) None))"
    unfolding search_inv_def using tree by simp
  have arr: "dijkstra_arrays level [?s] (filled (rows_of level) (cols_of level) False) dists
      (filled (rows_of level) (cols_of level) None) []"
    unfolding dijkstra_arrays_def
    using shaped_filled [OF wf, of False] shaped_filled [OF wf, of "None :: Pos option"]
      shaped_set_cell [OF shaped_filled [OF wf, of Infinity] dists]
    by (auto simp: cell_at_filled_shape cell_at_set_cell [OF dists])
  from inv arr have "dijkstra_inv level [?s] (filled (rows_of level) (cols_of level) False) dists
      (filled (rows_of level) (cols_of level) None) []"
    unfolding dijkstra_inv_def by blast
  from dijkstra_loop_correct [OF wf refl refl this] show ?thesis unfolding run .
qed

(*CLAIMS*)
section \<open>The claims\<close>

subsection \<open>Two concrete levels\<close>

text \<open>
  A binary level with two dead ends next to the start and a corridor to the left border:
  \<^verbatim>\<open>
    1 1 1 1 1
    1 1 0 1 1
    0 0 S 1 1
    1 1 0 1 1
    1 1 1 1 1
  \<close>
\<close>

definition dead_end_level :: Level where
  "dead_end_level = \<lparr>grid = [[1,1,1,1,1],[1,1,0,1,1],[0,0,0,1,1],[1,1,0,1,1],[1,1,1,1,1]],
     start = (2,2), cells = None\<rparr>"

text \<open>A binary level whose start is a blocked cell of the top border.\<close>

definition blocked_start_level :: Level where
  "blocked_start_level = \<lparr>grid = [[1,1,1],[1,0,1],[1,1,1]], start = (0,1), cells = None\<rparr>"

subsection \<open>C2: one trace entry per expanded cell, in the order of \<^verbatim>\<open>visitedCells\<close>\<close>

text \<open>
  C2 says that \<^verbatim>\<open>detailedSteps\<close> has exactly one entry per expanded cell and that its
  i-th position is the i-th element of \<^verbatim>\<open>visitedCells\<close>, for all four solvers.
  \<^verbatim>\<open>solveAStar\<close> pushes the entry before the exit test, so it does. \<^verbatim>\<open>solveBFS\<close> and
  \<^verbatim>\<open>solveDijkstra\<close> push it after the neighbour loop, which the \<^verbatim>\<open>return\<close> of the exit
  branch skips: the exit cell is in \<^verbatim>\<open>visitedCells\<close> and has no entry. \<^verbatim>\<open>solveDFS\<close>
  pushes it after the recursive calls, so the cells on the path found have none and the
  others come in the order in which their calls end. On \<open>dead_end_level\<close> the runs of
  \<^verbatim>\<open>solveBFS\<close> and \<^verbatim>\<open>solveDijkstra\<close> visit five cells and record four; the run of
  \<^verbatim>\<open>solveDFS\<close> is the theorem of C5.
\<close>

theorem C2_trace_misses_the_exit_cell:
  "solveBFS dead_end_level =
     Some (Inr (Some \<lparr>distance = 2, path = [(2, 2), (2, 1), (2, 0)],
       visitedCells = [(2, 2), (1, 2), (3, 2), (2, 1), (2, 0)],
       algorithm = ''BFS'',
       detailedSteps =
         [\<lparr>position = (2, 2), stepNumber = 0, algorithmData = BfsData 3 0 3\<rparr>,
          \<lparr>position = (1, 2), stepNumber = 1, algorithmData = BfsData 2 1 0\<rparr>,
          \<lparr>position = (3, 2), stepNumber = 2, algorithmData = BfsData 1 1 0\<rparr>,
          \<lparr>position = (2, 1), stepNumber = 3, algorithmData = BfsData 1 1 1\<rparr>],
       aStarScores = None\<rparr>))
   \<and> solveDijkstra dead_end_level =
     Some (Inr (Some \<lparr>distance = 2, path = [(2, 2), (2, 1), (2, 0)],
       visitedCells = [(2, 2), (1, 2), (3, 2), (2, 1), (2, 0)],
       algorithm = ''Dijkstra'',
       detailedSteps =
         [\<lparr>position = (2, 2), stepNumber = 0, algorithmData = DijkstraData (Fin 0) 3 3\<rparr>,
          \<lparr>position = (1, 2), stepNumber = 1, algorithmData = DijkstraData (Fin 1) 0 2\<rparr>,
          \<lparr>position = (3, 2), stepNumber = 2, algorithmData = DijkstraData (Fin 1) 0 1\<rparr>,
          \<lparr>position = (2, 1), stepNumber = 3, algorithmData = DijkstraData (Fin 1) 1 1\<rparr>],
       aStarScores = None\<rparr>))"
  by code_simp

subsection \<open>C5: the \<^verbatim>\<open>isBacktracking\<close> flag of \<^verbatim>\<open>solveDFS\<close>\<close>

text \<open>
  C5 says that an entry of the DFS trace has \<^verbatim>\<open>isBacktracking\<close> true exactly when its
  cell is not 4-adjacent to the cell visited before it. The source writes the constant
  \<^verbatim>\<open>false\<close> into every entry (its comment: "Will be true when we return from
  recursion"). On \<open>dead_end_level\<close> the search visits \<open>(1, 2)\<close>, returns to the start and
  visits \<open>(3, 2)\<close>, two rows below the cell visited before it; the entry of \<open>(3, 2)\<close>
  carries \<open>False\<close>.
\<close>

theorem C5_isBacktracking_is_never_set:
  "solveDFS dead_end_level =
     Some (Inr (Some \<lparr>distance = 2, path = [(2, 2), (2, 1), (2, 0)],
       visitedCells = [(2, 2), (1, 2), (3, 2), (2, 1), (2, 0)],
       algorithm = ''DFS'',
       detailedSteps =
         [\<lparr>position = (1, 2), stepNumber = 0, algorithmData = DfsData 1 False True\<rparr>,
          \<lparr>position = (3, 2), stepNumber = 1, algorithmData = DfsData 1 False True\<rparr>],
       aStarScores = None\<rparr>))"
  by code_simp

subsection \<open>C3: the exit test in binary mode\<close>

text \<open>
  C3 says that in binary mode a cell is an exit only if it lies on the border and its
  grid value is 0, so that no solver ends at a border cell of value 1, the start included.
  The source tests the border alone. On \<open>blocked_start_level\<close> the start \<open>(0, 1)\<close> has
  value 1 and every solver returns the path \<open>[(0, 1)]\<close>.
\<close>

theorem C3_blocked_start_is_an_exit:
  "cell_at (grid blocked_start_level) (0, 1) = Inr 1
   \<and> solveBFS blocked_start_level =
     Some (Inr (Some \<lparr>distance = 0, path = [(0, 1)], visitedCells = [(0, 1)],
       algorithm = ''BFS'', detailedSteps = [], aStarScores = None\<rparr>))
   \<and> solveDFS blocked_start_level =
     Some (Inr (Some \<lparr>distance = 0, path = [(0, 1)], visitedCells = [(0, 1)],
       algorithm = ''DFS'', detailedSteps = [], aStarScores = None\<rparr>))
   \<and> solveDijkstra blocked_start_level =
     Some (Inr (Some \<lparr>distance = 0, path = [(0, 1)], visitedCells = [(0, 1)],
       algorithm = ''Dijkstra'', detailedSteps = [], aStarScores = None\<rparr>))
   \<and> solveAStar blocked_start_level =
     Some (Inr (Some \<lparr>distance = 0, path = [(0, 1)], visitedCells = [(0, 1)],
       algorithm = ''A*'',
       detailedSteps = [\<lparr>position = (0, 1), stepNumber = 0,
         algorithmData = AStarData (Fin 0) 0 (Fin 0) 0\<rparr>],
       aStarScores = Some \<lparr>gScores =
           [[Infinity, Fin 0, Infinity], [Infinity, Infinity, Infinity], [Infinity, Infinity, Infinity]],
         hScores = [[0, 0, 0], [0, 1, 0], [0, 0, 0]],
         fScores =
           [[Infinity, Fin 0, Infinity], [Infinity, Infinity, Infinity], [Infinity, Infinity, Infinity]]\<rparr>\<rparr>))"
  by code_simp

subsection \<open>C7: generated mazes have symmetric walls\<close>

text \<open>
  C7: every Level returned by \<^verbatim>\<open>generateMaze\<close>, for every width, height, difficulty and
  every sequence of random numbers, has wall data in which, for every pair of 4-adjacent
  cells A and B, A's wall flag facing B equals B's wall flag facing A (so one is clear
  iff the other is). The carving clears the two flags of a passage together, and the exit
  carve clears the top flag of \<open>(0, 1)\<close>, which faces no cell.
\<close>

theorem C7_generated_walls_symmetric:
  assumes "generateMaze width height difficulty rng = Inr level"
  shows "\<exists>cs. cells level = Some cs \<and> wall_symmetric cs"
proof -
  from assms obtain seed cs0 cs1 i cs2 where
    init: "update_cell (filled height width
        \<lparr>walls = \<lparr>top_wall = True, right_wall = True, bottom_wall = True, left_wall = True\<rparr>,
         visited = False\<rparr>) seed (\<lambda>cell. cell\<lparr>visited := True\<rparr>) = Inr cs0"
    and run: "carve width height difficulty rng 0 cs0 [seed] = Inr (cs1, i)"
    and ex: "update_cell cs1 (0, 1) (\<lambda>cell. cell\<lparr>walls := (walls cell)\<lparr>top_wall := False\<rparr>\<rparr>) = Inr cs2"
    and cs: "cells level = Some cs2"
    using generateMaze_cells [OF assms] by blast
  from update_cell_keeps_walls_agree [OF filled_walls_agree init] have "wall_pairs_agree cs0" by simp
  from carve_agree [OF run this] have "wall_pairs_agree cs1" .
  from open_exit_agree [OF this ex] have "wall_pairs_agree cs2" .
  with cs wall_pairs_agree_symmetric show ?thesis by blast
qed

theorem C7_generated_walls_symmetric_witness:
  "generateMaze 2 2 Normal (\<lambda>_. 0) =
     Inr \<lparr>grid = [[0, 0], [0, 0]], start = (0, 0),
       cells = Some
         [[\<lparr>walls = \<lparr>top_wall = True, right_wall = False, bottom_wall = False, left_wall = True\<rparr>, visited = True\<rparr>,
           \<lparr>walls = \<lparr>top_wall = False, right_wall = True, bottom_wall = False, left_wall = False\<rparr>, visited = True\<rparr>],
          [\<lparr>walls = \<lparr>top_wall = False, right_wall = True, bottom_wall = True, left_wall = True\<rparr>, visited = True\<rparr>,
           \<lparr>walls = \<lparr>top_wall = False, right_wall = True, bottom_wall = True, left_wall = True\<rparr>, visited = True\<rparr>]]\<rparr>
   \<and> wall_symmetric
         [[\<lparr>walls = \<lparr>top_wall = True, right_wall = False, bottom_wall = False, left_wall = True\<rparr>, visited = True\<rparr>,
           \<lparr>walls = \<lparr>top_wall = False, right_wall = True, bottom_wall = False, left_wall = False\<rparr>, visited = True\<rparr>],
          [\<lparr>walls = \<lparr>top_wall = False, right_wall = True, bottom_wall = True, left_wall = True\<rparr>, visited = True\<rparr>,
           \<lparr>walls = \<lparr>top_wall = False, right_wall = True, bottom_wall = True, left_wall = True\<rparr>, visited = True\<rparr>]]"
proof -
  have run: "generateMaze 2 2 Normal (\<lambda>_. 0) =
     Inr \<lparr>grid = [[0, 0], [0, 0]], start = (0, 0),
       cells = Some
         [[\<lparr>walls = \<lparr>top_wall = True, right_wall = False, bottom_wall = False, left_wall = True\<rparr>, visited = True\<rparr>,
           \<lparr>walls = \<lparr>top_wall = False, right_wall = True, bottom_wall = False, left_wall = False\<rparr>, visited = True\<rparr>],
          [\<lparr>walls = \<lparr>top_wall = False, right_wall = True, bottom_wall = True, left_wall = True\<rparr>, visited = True\<rparr>,
           \<lparr>walls = \<lparr>top_wall = False, right_wall = True, bottom_wall = True, left_wall = True\<rparr>, visited = True\<rparr>]]\<rparr>"
    by code_simp
  from C7_generated_walls_symmetric [OF run] run show ?thesis by simp
qed

end
